theory Spec2Isabelle
  imports Main "HOL-Library.Monad_Syntax"
begin

section \<open>Data model of RBTree.c\<close>

text \<open>
  The C program works on heap-allocated nodes linked by \<open>parent\<close>, \<open>left\<close> and \<open>right\<close>
  pointers. The model keeps an explicit store: a node pointer is an optional address
  (\<open>None\<close> is \<open>NULL\<close>), the store maps every allocated address to its node record, and every
  function threads the store through. A function returns \<open>None\<close> when the C code would
  dereference \<open>NULL\<close> or a freed node, read an uninitialised variable, or never return.
\<close>

datatype Color = RED | BLACK

type_synonym addr = nat
type_synonym ptr = "addr option"

record 'a Node =
  parent :: ptr
  left :: ptr
  right :: ptr
  data :: "'a option"
  color :: Color

text \<open>
  \<open>deleteFromRBTree\<close> passes the addresses of its locals \<open>toDelete\<close>, \<open>child\<close> and \<open>parent\<close>
  down to \<open>balanceTree\<close> and \<open>solveDB\<close>, which also receive addresses of node fields
  (\<open>&((*parentP)->parent)\<close>, \<open>&((*parentP)->right)\<close>). A \<open>ref\<close> is such a \<open>Node **\<close>.
\<close>

datatype var = V_toDelete | V_child | V_parent

datatype ref = Var var | ParentOf addr | LeftOf addr | RightOf addr

text \<open>
  The state holds the node store, the fields \<open>root\<close> and \<open>size\<close> of the \<open>RBTree\<close> struct,
  the address-taken locals, and the log of payloads handed to the tree's \<open>freeFunc\<close>.
  The struct's \<open>compFunc\<close> is passed to the functions that call it.
\<close>

record 'a state =
  nodes :: "addr \<Rightarrow> 'a Node option"
  root :: ptr
  size_f :: int
  vars :: "var \<Rightarrow> ptr"
  destructed :: "'a option list"

abbreviation FAILURE :: int where "FAILURE \<equiv> 0"
abbreviation SUCCESS :: int where "SUCCESS \<equiv> 1"
abbreviation LEFT :: int where "LEFT \<equiv> - 1"
abbreviation EQUAL :: int where "EQUAL \<equiv> 0"
abbreviation RIGHT :: int where "RIGHT \<equiv> 1"

subsection \<open>Reading and writing through pointers\<close>

definition get :: "('a Node \<Rightarrow> 'b) \<Rightarrow> 'a state \<Rightarrow> ptr \<Rightarrow> 'b option" where
  "get f s p = (case p of None \<Rightarrow> None | Some a \<Rightarrow> map_option f (nodes s a))"

definition put :: "ptr \<Rightarrow> ('a Node \<Rightarrow> 'a Node) \<Rightarrow> 'a state \<Rightarrow> 'a state option" where
  "put p f s = (case p of None \<Rightarrow> None | Some a \<Rightarrow>
     (case nodes s a of None \<Rightarrow> None | Some n \<Rightarrow> Some (s\<lparr>nodes := (nodes s)(a \<mapsto> f n)\<rparr>)))"

definition rd :: "'a state \<Rightarrow> ref \<Rightarrow> ptr option" where
  "rd s r = (case r of Var v \<Rightarrow> Some (vars s v) | ParentOf a \<Rightarrow> get parent s (Some a)
     | LeftOf a \<Rightarrow> get left s (Some a) | RightOf a \<Rightarrow> get right s (Some a))"

definition wr :: "ref \<Rightarrow> ptr \<Rightarrow> 'a state \<Rightarrow> 'a state option" where
  "wr r v s = (case r of Var x \<Rightarrow> Some (s\<lparr>vars := (vars s)(x := v)\<rparr>)
     | ParentOf a \<Rightarrow> put (Some a) (\<lambda>n. n\<lparr>parent := v\<rparr>) s
     | LeftOf a \<Rightarrow> put (Some a) (\<lambda>n. n\<lparr>left := v\<rparr>) s
     | RightOf a \<Rightarrow> put (Some a) (\<lambda>n. n\<lparr>right := v\<rparr>) s)"

text \<open>\<open>&(p->field)\<close>: the address of a field of the node \<open>p\<close> points to.\<close>

definition field_ref :: "(addr \<Rightarrow> ref) \<Rightarrow> ptr \<Rightarrow> ref option" where
  "field_ref F p = map_option F p"

text \<open>\<open>free(p)\<close>: releases the node's storage; \<open>free(NULL)\<close> does nothing.\<close>

definition free :: "ptr \<Rightarrow> 'a state \<Rightarrow> 'a state option" where
  "free p s = (case p of None \<Rightarrow> Some s | Some a \<Rightarrow>
     (case nodes s a of None \<Rightarrow> None | Some n \<Rightarrow> Some (s\<lparr>nodes := (nodes s)(a := None)\<rparr>)))"

text \<open>The two short-circuit tests the C code repeats:
  \<open>p != NULL && p->color == RED\<close> and \<open>p == NULL || p->color == BLACK\<close>.\<close>

definition isRed :: "'a state \<Rightarrow> ptr \<Rightarrow> bool option" where
  "isRed s p = (if p = None then Some False else map_option (\<lambda>c. c = RED) (get color s p))"

definition isNullOrBlack :: "'a state \<Rightarrow> ptr \<Rightarrow> bool option" where
  "isNullOrBlack s p = (if p = None then Some True else map_option (\<lambda>c. c = BLACK) (get color s p))"

section \<open>Structural primitives\<close>

definition newRBTree :: "'a state" where
  "newRBTree = \<lparr>nodes = (\<lambda>a. None), root = None, size_f = 0, vars = (\<lambda>v. None), destructed = []\<rparr>"

definition connectNode :: "'a state \<Rightarrow> ptr \<Rightarrow> ptr \<Rightarrow> int \<Rightarrow> 'a state option" where
  "connectNode s node par side = do {
     s1 \<leftarrow> (if node \<noteq> None then put node (\<lambda>n. n\<lparr>parent := par\<rparr>) s else Some s);
     if par = None then Some (s1\<lparr>root := node\<rparr>)
     else if side = LEFT then put par (\<lambda>n. n\<lparr>left := node\<rparr>) s1
     else put par (\<lambda>n. n\<lparr>right := node\<rparr>) s1
   }"

definition connectNodes :: "'a state \<Rightarrow> ptr \<Rightarrow> ptr \<Rightarrow> int \<Rightarrow> 'a state option" where
  "connectNodes s par child side = do {
     s1 \<leftarrow> (if par = None then Some (s\<lparr>root := child\<rparr>)
            else if side = LEFT then put par (\<lambda>n. n\<lparr>left := child\<rparr>) s
            else put par (\<lambda>n. n\<lparr>right := child\<rparr>) s);
     if child \<noteq> None then put child (\<lambda>n. n\<lparr>parent := par\<rparr>) s1 else Some s1
   }"

definition getSide :: "'a state \<Rightarrow> ptr \<Rightarrow> int option" where
  "getSide s child =
     (if child = None then Some FAILURE
      else do {
        par \<leftarrow> get parent s child;
        if par = None then Some FAILURE
        else do {
          l \<leftarrow> get left s par;
          if child = l then Some LEFT else Some RIGHT
        }
      })"

definition rotate_rb :: "'a state \<Rightarrow> ptr \<Rightarrow> ptr \<Rightarrow> 'a state option" where
  "rotate_rb s child par = do {
     childSide \<leftarrow> getSide s child;
     pp \<leftarrow> get parent s par;
     s1 \<leftarrow> (if pp = None then put child (\<lambda>n. n\<lparr>parent := None\<rparr>) (s\<lparr>root := child\<rparr>)
            else do {
              parentSide \<leftarrow> getSide s par;
              sa \<leftarrow> put child (\<lambda>n. n\<lparr>parent := pp\<rparr>) s;
              pp1 \<leftarrow> get parent sa par;
              if parentSide = LEFT then put pp1 (\<lambda>n. n\<lparr>left := child\<rparr>) sa
              else put pp1 (\<lambda>n. n\<lparr>right := child\<rparr>) sa
            });
     if childSide = LEFT then do {
       cr \<leftarrow> get right s1 child;
       s2 \<leftarrow> connectNodes s1 par cr LEFT;
       connectNodes s2 child par RIGHT
     } else do {
       cl \<leftarrow> get left s1 child;
       s2 \<leftarrow> connectNodes s1 par cl RIGHT;
       connectNodes s2 child par LEFT
     }
   }"

definition getSingleChild :: "'a state \<Rightarrow> ptr \<Rightarrow> ptr option" where
  "getSingleChild s node = do {
     l \<leftarrow> get left s node;
     r \<leftarrow> get right s node;
     if l = None \<and> r \<noteq> None then Some r
     else if l \<noteq> None \<and> r = None then Some l
     else Some None
   }"

section \<open>Insertion\<close>

definition updateColorBlackUncle ::
  "'a state \<Rightarrow> ptr \<Rightarrow> ptr \<Rightarrow> ptr \<Rightarrow> int \<Rightarrow> (Color \<times> 'a state) option" where
  "updateColorBlackUncle s gParent par node parentSide = do {
     childSide \<leftarrow> getSide s node;
     s1 \<leftarrow> (if childSide \<noteq> parentSide then rotate_rb s node par else Some s);
     let par1 = (if childSide \<noteq> parentSide then node else par);
     s2 \<leftarrow> rotate_rb s1 par1 gParent;
     s3 \<leftarrow> put par1 (\<lambda>n. n\<lparr>color := BLACK\<rparr>) s2;
     s4 \<leftarrow> put gParent (\<lambda>n. n\<lparr>color := RED\<rparr>) s3;
     if node = par1 then Some (BLACK, s4) else Some (RED, s4)
   }"

partial_function (option) updateColors :: "'a state \<Rightarrow> ptr \<Rightarrow> (Color \<times> 'a state) option" where
  "updateColors s node = do {
     par \<leftarrow> get parent s node;
     if par = None then Some (BLACK, s)
     else do {
       pc \<leftarrow> get color s par;
       if pc = BLACK then Some (RED, s)
       else do {
         gParent \<leftarrow> get parent s par;
         parentSide \<leftarrow> getSide s par;
         uncle \<leftarrow> (if parentSide = LEFT then get right s gParent else get left s gParent);
         ub \<leftarrow> isNullOrBlack s uncle;
         if ub then updateColorBlackUncle s gParent par node parentSide
         else do {
           s1 \<leftarrow> put par (\<lambda>n. n\<lparr>color := BLACK\<rparr>) s;
           s2 \<leftarrow> put uncle (\<lambda>n. n\<lparr>color := BLACK\<rparr>) s1;
           res \<leftarrow> updateColors s2 gParent;
           s4 \<leftarrow> put gParent (\<lambda>n. n\<lparr>color := fst res\<rparr>) (snd res);
           Some (RED, s4)
         }
       }
     }
   }"

text \<open>The \<open>while\<close> loop of \<open>insertNode\<close>, with its variables \<open>curNode\<close>, \<open>parent\<close>, \<open>side\<close>.\<close>

partial_function (option) insertNode_loop ::
  "('a option \<Rightarrow> 'a option \<Rightarrow> int) \<Rightarrow> 'a state \<Rightarrow> ptr \<Rightarrow> ptr \<Rightarrow> ptr \<Rightarrow> int
     \<Rightarrow> (int \<times> 'a state) option" where
  "insertNode_loop compFunc s newNode curNode par side =
     (if curNode \<noteq> None then do {
        nd \<leftarrow> get data s newNode;
        cd \<leftarrow> get data s curNode;
        let compRes = compFunc nd cd in
        if compRes = EQUAL then do {
          s1 \<leftarrow> free newNode s;
          Some (FAILURE, s1)
        }
        else if compRes < EQUAL then do {
          l \<leftarrow> get left s curNode;
          insertNode_loop compFunc s newNode l curNode LEFT
        }
        else do {
          r \<leftarrow> get right s curNode;
          insertNode_loop compFunc s newNode r curNode RIGHT
        }
      }
      else do {
        s1 \<leftarrow> connectNode s newNode par side;
        Some (SUCCESS, s1)
      })"

text \<open>\<open>parent\<close> and \<open>side\<close> are uninitialised until the loop body has run once: on an empty
  tree \<open>insertNode\<close> would read them uninitialised (\<open>insertToRBTree\<close> never calls it so).\<close>

definition insertNode ::
  "('a option \<Rightarrow> 'a option \<Rightarrow> int) \<Rightarrow> 'a state \<Rightarrow> ptr \<Rightarrow> (int \<times> 'a state) option" where
  "insertNode compFunc s newNode =
     (if root s = None then None
      else insertNode_loop compFunc s newNode (root s) None 0)"

text \<open>\<open>tree\<close> is \<open>None\<close> for a \<open>NULL\<close> tree pointer; \<open>newNode\<close> is what \<open>malloc\<close> returned
  (\<open>None\<close> when it failed).\<close>

definition insertToRBTree ::
  "('a option \<Rightarrow> 'a option \<Rightarrow> int) \<Rightarrow> 'a state option \<Rightarrow> ptr \<Rightarrow> 'a option
     \<Rightarrow> (int \<times> 'a state option) option" where
  "insertToRBTree compFunc tree newNode dat =
     (case tree of None \<Rightarrow> Some (FAILURE, None)
      | Some s \<Rightarrow>
        if dat = None then Some (FAILURE, Some s)
        else (case newNode of None \<Rightarrow> Some (FAILURE, Some s)
          | Some a \<Rightarrow>
            let s0 = s\<lparr>nodes := (nodes s)(a \<mapsto>
                       \<lparr>parent = None, left = None, right = None, data = dat, color = BLACK\<rparr>)\<rparr>
            in if root s0 = None
               then Some (SUCCESS, Some (s0\<lparr>root := newNode, size_f := size_f s0 + 1\<rparr>))
               else do {
                 r \<leftarrow> insertNode compFunc s0 newNode;
                 if fst r = FAILURE then Some (FAILURE, Some (snd r))
                 else do {
                   res \<leftarrow> updateColors (snd r) newNode;
                   s3 \<leftarrow> put newNode (\<lambda>n. n\<lparr>color := fst res\<rparr>) (snd res);
                   Some (SUCCESS, Some (s3\<lparr>size_f := size_f s3 + 1\<rparr>))
                 }
               }))"

section \<open>Lookup\<close>

partial_function (option) findNode_loop ::
  "('a option \<Rightarrow> 'a option \<Rightarrow> int) \<Rightarrow> 'a state \<Rightarrow> 'a option \<Rightarrow> ptr \<Rightarrow> ptr option" where
  "findNode_loop compFunc s dat curNode =
     (if curNode \<noteq> None then do {
        cd \<leftarrow> get data s curNode;
        let compRes = compFunc dat cd in
        if compRes = EQUAL then Some curNode
        else if compRes < EQUAL then do {
          l \<leftarrow> get left s curNode;
          findNode_loop compFunc s dat l
        }
        else do {
          r \<leftarrow> get right s curNode;
          findNode_loop compFunc s dat r
        }
      }
      else Some None)"

definition findNode ::
  "('a option \<Rightarrow> 'a option \<Rightarrow> int) \<Rightarrow> 'a state \<Rightarrow> 'a option \<Rightarrow> ptr option" where
  "findNode compFunc s dat = findNode_loop compFunc s dat (root s)"

partial_function (option) findSuccessor_loop :: "'a state \<Rightarrow> ptr \<Rightarrow> ptr option" where
  "findSuccessor_loop s child =
     (if child \<noteq> None then do {
        l \<leftarrow> get left s child;
        if l \<noteq> None then findSuccessor_loop s l else Some child
      }
      else Some child)"

definition findSuccessor :: "'a state \<Rightarrow> ptr \<Rightarrow> ptr option" where
  "findSuccessor s node = do {
     r \<leftarrow> get right s node;
     findSuccessor_loop s r
   }"

definition RBTreeContains ::
  "('a option \<Rightarrow> 'a option \<Rightarrow> int) \<Rightarrow> 'a state option \<Rightarrow> 'a option \<Rightarrow> int option" where
  "RBTreeContains compFunc tree dat =
     (case tree of None \<Rightarrow> Some FAILURE
      | Some s \<Rightarrow> do {
          n \<leftarrow> findNode compFunc s dat;
          Some (if n \<noteq> None then 1 else 0)
        })"

section \<open>Deletion\<close>

text \<open>\<open>freeNode\<close> hands the payload to the tree's \<open>freeFunc\<close> (logged in \<open>destructed\<close>) and
  releases the node.\<close>

partial_function (option) freeNode :: "'a state \<Rightarrow> ptr \<Rightarrow> 'a state option" where
  "freeNode s toFree =
     (if toFree = None then Some s
      else do {
        l \<leftarrow> get left s toFree;
        s1 \<leftarrow> freeNode s l;
        r \<leftarrow> get right s1 toFree;
        s2 \<leftarrow> freeNode s1 r;
        d \<leftarrow> get data s2 toFree;
        free toFree (s2\<lparr>destructed := destructed s2 @ [d]\<rparr>)
      })"

definition switchNodes :: "'a state \<Rightarrow> ptr \<Rightarrow> ptr \<Rightarrow> 'a state option" where
  "switchNodes s highNode lowNode = do {
     highParent \<leftarrow> get parent s highNode;
     highRight \<leftarrow> get right s highNode;
     highLeft \<leftarrow> get left s highNode;
     highCol \<leftarrow> get color s highNode;
     highSide \<leftarrow> getSide s highNode;
     lowSide \<leftarrow> getSide s lowNode;
     ll \<leftarrow> get left s lowNode;
     s1 \<leftarrow> connectNodes s highNode ll LEFT;
     lr \<leftarrow> get right s1 lowNode;
     s2 \<leftarrow> connectNodes s1 highNode lr RIGHT;
     lp \<leftarrow> get parent s2 lowNode;
     s3 \<leftarrow> (if lp \<noteq> highNode then do {
              sa \<leftarrow> connectNodes s2 lp highNode lowSide;
              sb \<leftarrow> connectNodes sa lowNode highRight RIGHT;
              connectNodes sb lowNode highLeft LEFT
            } else do {
              sa \<leftarrow> connectNodes s2 lowNode highNode lowSide;
              if lowSide = LEFT then connectNodes sa lowNode highRight RIGHT
              else connectNodes sa lowNode highLeft LEFT
            });
     s4 \<leftarrow> connectNodes s3 highParent lowNode highSide;
     lc \<leftarrow> get color s4 lowNode;
     s5 \<leftarrow> put highNode (\<lambda>n. n\<lparr>color := lc\<rparr>) s4;
     put lowNode (\<lambda>n. n\<lparr>color := highCol\<rparr>) s5
   }"

definition closeRedNephewDB :: "'a state \<Rightarrow> ref \<Rightarrow> int \<Rightarrow> 'a state option" where
  "closeRedNephewDB s siblingP childSide = do {
     c1 \<leftarrow> (if childSide = LEFT
            then do { sib \<leftarrow> rd s siblingP; sl \<leftarrow> get left s sib; isRed s sl }
            else Some False);
     if c1 then do {
       sib \<leftarrow> rd s siblingP;
       sl \<leftarrow> get left s sib;
       s1 \<leftarrow> put sl (\<lambda>n. n\<lparr>color := BLACK\<rparr>) s;
       sib1 \<leftarrow> rd s1 siblingP;
       s2 \<leftarrow> put sib1 (\<lambda>n. n\<lparr>color := RED\<rparr>) s1;
       sib2 \<leftarrow> rd s2 siblingP;
       sl2 \<leftarrow> get left s2 sib2;
       rotate_rb s2 sl2 sib2
     } else do {
       c2 \<leftarrow> (if childSide = RIGHT
              then do { sib \<leftarrow> rd s siblingP; sr \<leftarrow> get right s sib; isRed s sr }
              else Some False);
       if c2 then do {
         sib \<leftarrow> rd s siblingP;
         sr \<leftarrow> get right s sib;
         s1 \<leftarrow> put sr (\<lambda>n. n\<lparr>color := BLACK\<rparr>) s;
         sib1 \<leftarrow> rd s1 siblingP;
         s2 \<leftarrow> put sib1 (\<lambda>n. n\<lparr>color := RED\<rparr>) s1;
         sib2 \<leftarrow> rd s2 siblingP;
         sr2 \<leftarrow> get right s2 sib2;
         rotate_rb s2 sr2 sib2
       } else Some s
     }
   }"

definition farRedNephewDB :: "'a state \<Rightarrow> ref \<Rightarrow> ref \<Rightarrow> int \<Rightarrow> 'a state option" where
  "farRedNephewDB s parentP siblingP childSide = do {
     c1 \<leftarrow> (if childSide = LEFT
            then do { sib \<leftarrow> rd s siblingP; sr \<leftarrow> get right s sib; isRed s sr }
            else Some False);
     c2 \<leftarrow> (if c1 then Some True
            else if childSide = RIGHT
            then do { sib \<leftarrow> rd s siblingP; sl \<leftarrow> get left s sib; isRed s sl }
            else Some False);
     if c2 then do {
       sib \<leftarrow> rd s siblingP;
       temp \<leftarrow> get color s sib;
       par \<leftarrow> rd s parentP;
       pc \<leftarrow> get color s par;
       s1 \<leftarrow> put sib (\<lambda>n. n\<lparr>color := pc\<rparr>) s;
       par1 \<leftarrow> rd s1 parentP;
       s2 \<leftarrow> put par1 (\<lambda>n. n\<lparr>color := temp\<rparr>) s1;
       sib2 \<leftarrow> rd s2 siblingP;
       sr2 \<leftarrow> get right s2 sib2;
       red \<leftarrow> isRed s2 sr2;
       s3 \<leftarrow> (if red then put sr2 (\<lambda>n. n\<lparr>color := BLACK\<rparr>) s2
              else do {
                sl2 \<leftarrow> get left s2 sib2;
                put sl2 (\<lambda>n. n\<lparr>color := BLACK\<rparr>) s2
              });
       sib3 \<leftarrow> rd s3 siblingP;
       par3 \<leftarrow> rd s3 parentP;
       rotate_rb s3 sib3 par3
     } else Some s
   }"

text \<open>The last three statements of \<open>blackSiblingDB\<close>, reached from every path of it that
  does not return early: the close-nephew step, the reassignment of \<open>*siblingP\<close>, and the
  far-nephew step.\<close>

definition blackSiblingDB_tail :: "'a state \<Rightarrow> ref \<Rightarrow> ref \<Rightarrow> ref \<Rightarrow> int \<Rightarrow> 'a state option" where
  "blackSiblingDB_tail s parentP siblingP childP childSide = do {
     s1 \<leftarrow> closeRedNephewDB s siblingP childSide;
     par \<leftarrow> rd s1 parentP;
     pl \<leftarrow> get left s1 par;
     ch \<leftarrow> rd s1 childP;
     v \<leftarrow> (if pl = ch then get right s1 par else get left s1 par);
     s2 \<leftarrow> wr siblingP v s1;
     farRedNephewDB s2 parentP siblingP childSide
   }"

text \<open>\<open>blackSiblingDB\<close> and \<open>solveDB\<close> call each other. \<open>blackSiblingDB\<close> takes the function
  it calls as \<open>solveDB\<close> for its first argument, and \<open>solveDB\<close> passes itself.\<close>

definition blackSiblingDB ::
  "('a state \<Rightarrow> ref \<Rightarrow> ref \<Rightarrow> int \<Rightarrow> 'a state option)
     \<Rightarrow> 'a state \<Rightarrow> ref \<Rightarrow> ref \<Rightarrow> ref \<Rightarrow> int \<Rightarrow> 'a state option" where
  "blackSiblingDB solveDB_rec s parentP siblingP childP childSide = do {
     sib \<leftarrow> rd s siblingP;
     sl \<leftarrow> get left s sib;
     lb \<leftarrow> isNullOrBlack s sl;
     if lb then do {
       sr \<leftarrow> get right s sib;
       rb \<leftarrow> isNullOrBlack s sr;
       if rb then do {
         s1 \<leftarrow> put sib (\<lambda>n. n\<lparr>color := RED\<rparr>) s;
         par \<leftarrow> rd s1 parentP;
         pc \<leftarrow> get color s1 par;
         if pc = RED then do {
           s2 \<leftarrow> put par (\<lambda>n. n\<lparr>color := BLACK\<rparr>) s1;
           blackSiblingDB_tail s2 parentP siblingP childP childSide
         } else do {
           pref \<leftarrow> field_ref ParentOf par;
           side \<leftarrow> getSide s1 par;
           solveDB_rec s1 pref parentP side
         }
       } else blackSiblingDB_tail s parentP siblingP childP childSide
     } else blackSiblingDB_tail s parentP siblingP childP childSide
   }"

lemma blackSiblingDB_mono [partial_function_mono]:
  assumes "\<And>s pp cp cs. mono_option (\<lambda>f. R f s pp cp cs)"
  shows "mono_option (\<lambda>f. blackSiblingDB (R f) s parentP siblingP childP childSide)"
  unfolding blackSiblingDB_def by (intro partial_function_mono assms)

partial_function (option) solveDB :: "'a state \<Rightarrow> ref \<Rightarrow> ref \<Rightarrow> int \<Rightarrow> 'a state option" where
  "solveDB s parentP childP childSide = do {
     par \<leftarrow> rd s parentP;
     if par = None then Some s
     else do {
       pl \<leftarrow> get left s par;
       ch \<leftarrow> rd s childP;
       siblingP \<leftarrow> (if pl = ch then field_ref RightOf par else field_ref LeftOf par);
       sib \<leftarrow> rd s siblingP;
       sc \<leftarrow> get color s sib;
       if sc = RED then do {
         s1 \<leftarrow> put sib (\<lambda>n. n\<lparr>color := BLACK\<rparr>) s;
         par1 \<leftarrow> rd s1 parentP;
         s2 \<leftarrow> put par1 (\<lambda>n. n\<lparr>color := RED\<rparr>) s1;
         sib2 \<leftarrow> rd s2 siblingP;
         par2 \<leftarrow> rd s2 parentP;
         s3 \<leftarrow> rotate_rb s2 sib2 par2;
         solveDB s3 parentP childP childSide
       }
       else blackSiblingDB solveDB s parentP siblingP childP childSide
     }
   }"

definition placeBeforeDeletion :: "'a state \<Rightarrow> ptr \<Rightarrow> ref \<Rightarrow> (int \<times> 'a state) option" where
  "placeBeforeDeletion s toSwitch childPtr =
     (if toSwitch = None then Some (FAILURE, s)
      else do {
        c \<leftarrow> getSingleChild s toSwitch;
        s1 \<leftarrow> wr childPtr c s;
        c1 \<leftarrow> rd s1 childPtr;
        if c1 \<noteq> None then do {
          s2 \<leftarrow> switchNodes s1 toSwitch c1;
          Some (SUCCESS, s2)
        } else do {
          r \<leftarrow> get right s1 toSwitch;
          l \<leftarrow> (if r \<noteq> None then get left s1 toSwitch else Some None);
          if r \<noteq> None \<and> l \<noteq> None then do {
            suc \<leftarrow> findSuccessor s1 toSwitch;
            s2 \<leftarrow> switchNodes s1 toSwitch suc;
            Some (SUCCESS, s2)
          } else Some (SUCCESS, s1)
        }
      })"

definition balanceTree :: "'a state \<Rightarrow> ref \<Rightarrow> ref \<Rightarrow> ref \<Rightarrow> int \<Rightarrow> 'a state option" where
  "balanceTree s parentP toDeleteP childP toDeleteSide = do {
     td \<leftarrow> rd s toDeleteP;
     c \<leftarrow> get color s td;
     if c = RED then do {
       par \<leftarrow> rd s parentP;
       connectNode s None par toDeleteSide
     } else do {
       sc \<leftarrow> getSingleChild s td;
       s1 \<leftarrow> wr childP sc s;
       ch \<leftarrow> rd s1 childP;
       par \<leftarrow> rd s1 parentP;
       s2 \<leftarrow> connectNode s1 ch par toDeleteSide;
       ch2 \<leftarrow> rd s2 childP;
       red \<leftarrow> isRed s2 ch2;
       if red then put ch2 (\<lambda>n. n\<lparr>color := BLACK\<rparr>) s2
       else solveDB s2 parentP childP toDeleteSide
     }
   }"

text \<open>The locals live in \<open>vars\<close> while \<open>deleteFromRBTree\<close> runs; on return its frame is gone
  and \<open>vars\<close> is what the caller had.\<close>

definition deleteFromRBTree ::
  "('a option \<Rightarrow> 'a option \<Rightarrow> int) \<Rightarrow> 'a state option \<Rightarrow> 'a option
     \<Rightarrow> (int \<times> 'a state option) option" where
  "deleteFromRBTree compFunc tree dat =
     (case tree of None \<Rightarrow> Some (FAILURE, None)
      | Some s \<Rightarrow> do {
          td \<leftarrow> findNode compFunc s dat;
          let s0 = s\<lparr>vars := (vars s)(V_toDelete := td, V_child := None)\<rparr>;
          r \<leftarrow> placeBeforeDeletion s0 (vars s0 V_toDelete) (Var V_child);
          if fst r = FAILURE then Some (FAILURE, Some ((snd r)\<lparr>vars := vars s\<rparr>))
          else do {
            p \<leftarrow> get parent (snd r) (vars (snd r) V_toDelete);
            let s2 = (snd r)\<lparr>vars := (vars (snd r))(V_parent := p)\<rparr>;
            toDeleteSide \<leftarrow> getSide s2 (vars s2 V_toDelete);
            s3 \<leftarrow> balanceTree s2 (Var V_parent) (Var V_toDelete) (Var V_child) toDeleteSide;
            s4 \<leftarrow> put (vars s3 V_toDelete) (\<lambda>n. n\<lparr>right := None\<rparr>) s3;
            s5 \<leftarrow> put (vars s4 V_toDelete) (\<lambda>n. n\<lparr>left := None\<rparr>) s4;
            s6 \<leftarrow> freeNode s5 (vars s5 V_toDelete);
            Some (SUCCESS, Some (s6\<lparr>size_f := size_f s6 - 1, vars := vars s\<rparr>))
          }
        })"

section \<open>Traversal\<close>

text \<open>The callback \<open>func(data, args)\<close> may change what \<open>args\<close> points to: it returns its
  status together with the new contents.\<close>

partial_function (option) forEachNode ::
  "'a state \<Rightarrow> ptr \<Rightarrow> ('a option \<Rightarrow> 'c \<Rightarrow> int \<times> 'c) \<Rightarrow> 'c \<Rightarrow> (int \<times> 'c) option" where
  "forEachNode s node func args =
     (if node = None then Some (SUCCESS, args)
      else do {
        l \<leftarrow> get left s node;
        r1 \<leftarrow> forEachNode s l func args;
        if fst r1 = FAILURE then Some (FAILURE, snd r1)
        else do {
          d \<leftarrow> get data s node;
          let r2 = func d (snd r1) in
          if fst r2 = FAILURE then Some (FAILURE, snd r2)
          else do {
            r \<leftarrow> get right s node;
            r3 \<leftarrow> forEachNode s r func (snd r2);
            if fst r3 = FAILURE then Some (FAILURE, snd r3) else Some (SUCCESS, snd r3)
          }
        }
      })"

definition forEachRBTree ::
  "'a state option \<Rightarrow> ('a option \<Rightarrow> 'c \<Rightarrow> int \<times> 'c) \<Rightarrow> 'c \<Rightarrow> (int \<times> 'c) option" where
  "forEachRBTree tree func args =
     (case tree of None \<Rightarrow> Some (FAILURE, args)
      | Some s \<Rightarrow> if root s = None then Some (SUCCESS, args)
                  else forEachNode s (root s) func args)"

declare updateColors.simps [code] insertNode_loop.simps [code] findNode_loop.simps [code]
  findSuccessor_loop.simps [code] freeNode.simps [code] solveDB.simps [code]
  forEachNode.simps [code]

section \<open>Trees represented in the store\<close>

datatype 'a tr = Lf | Nd "'a tr" addr Color 'a "'a tr"

fun ptr_of :: "'a tr \<Rightarrow> ptr" where
  "ptr_of Lf = None"
| "ptr_of (Nd l a c d r) = Some a"

fun addrl :: "'a tr \<Rightarrow> addr list" where
  "addrl Lf = []"
| "addrl (Nd l a c d r) = addrl l @ a # addrl r"

fun inorder :: "'a tr \<Rightarrow> 'a list" where
  "inorder Lf = []"
| "inorder (Nd l a c d r) = inorder l @ d # inorder r"

fun col :: "'a tr \<Rightarrow> Color" where
  "col Lf = BLACK"
| "col (Nd l a c d r) = c"

fun paint :: "Color \<Rightarrow> 'a tr \<Rightarrow> 'a tr" where
  "paint k Lf = Lf"
| "paint k (Nd l a c d r) = Nd l a k d r"

fun rp :: "(addr \<Rightarrow> 'a Node option) \<Rightarrow> ptr \<Rightarrow> 'a tr \<Rightarrow> bool" where
  "rp h par Lf = True"
| "rp h par (Nd l a c d r) =
     (h a = Some \<lparr>parent = par, left = ptr_of l, right = ptr_of r, data = Some d, color = c\<rparr>
      \<and> rp h (Some a) l \<and> rp h (Some a) r)"

datatype 'a ctx = Top | InL "'a ctx" addr Color 'a "'a tr" | InR "'a tr" addr Color 'a "'a ctx"

fun plug :: "'a ctx \<Rightarrow> 'a tr \<Rightarrow> 'a tr" where
  "plug Top t = t"
| "plug (InL c a k d r) t = plug c (Nd t a k d r)"
| "plug (InR l a k d c) t = plug c (Nd l a k d t)"

fun cpar :: "ptr \<Rightarrow> 'a ctx \<Rightarrow> ptr" where
  "cpar tp Top = tp"
| "cpar tp (InL c a k d r) = Some a"
| "cpar tp (InR l a k d c) = Some a"

fun cside :: "'a ctx \<Rightarrow> int" where
  "cside Top = 0"
| "cside (InL c a k d r) = LEFT"
| "cside (InR l a k d c) = RIGHT"

fun caddrl :: "'a ctx \<Rightarrow> addr list" where
  "caddrl Top = []"
| "caddrl (InL c a k d r) = a # addrl r @ caddrl c"
| "caddrl (InR l a k d c) = a # addrl l @ caddrl c"

fun cinl :: "'a ctx \<Rightarrow> 'a list" where
  "cinl Top = []"
| "cinl (InL c a k d r) = cinl c"
| "cinl (InR l a k d c) = cinl c @ inorder l @ [d]"

fun cinr :: "'a ctx \<Rightarrow> 'a list" where
  "cinr Top = []"
| "cinr (InL c a k d r) = d # inorder r @ cinr c"
| "cinr (InR l a k d c) = cinr c"

fun crep :: "(addr \<Rightarrow> 'a Node option) \<Rightarrow> ptr \<Rightarrow> ptr \<Rightarrow> 'a ctx \<Rightarrow> ptr \<Rightarrow> bool" where
  "crep h tp q Top p = (q = p)"
| "crep h tp q (InL c a k d r) p =
     (h a = Some \<lparr>parent = cpar tp c, left = p, right = ptr_of r, data = Some d, color = k\<rparr>
      \<and> rp h (Some a) r \<and> crep h tp q c (Some a))"
| "crep h tp q (InR l a k d c) p =
     (h a = Some \<lparr>parent = cpar tp c, left = ptr_of l, right = p, data = Some d, color = k\<rparr>
      \<and> rp h (Some a) l \<and> crep h tp q c (Some a))"

definition tree_of :: "'a state \<Rightarrow> 'a tr \<Rightarrow> bool" where
  "tree_of s t = (root s = ptr_of t \<and> rp (nodes s) None t \<and> distinct (addrl t))"

definition same :: "'a state \<Rightarrow> 'a state \<Rightarrow> addr set \<Rightarrow> bool" where
  "same s s' A = (size_f s' = size_f s \<and> vars s' = vars s \<and> destructed s' = destructed s
     \<and> (\<forall>z. z \<notin> A \<longrightarrow> nodes s' z = nodes s z))"

section \<open>Basic facts\<close>

lemma get_Some [simp]: "nodes s a = Some n \<Longrightarrow> get f s (Some a) = Some (f n)"
  by (simp add: get_def)

lemma get_None [simp]: "get f s None = None"
  by (simp add: get_def)

lemma put_Some [simp]:
  "nodes s a = Some n \<Longrightarrow> put (Some a) g s = Some (s\<lparr>nodes := (nodes s)(a \<mapsto> g n)\<rparr>)"
  by (simp add: put_def)

lemma rp_upd [simp]: "a \<notin> set (addrl t) \<Longrightarrow> rp (h(a := v)) par t = rp h par t"
  by (induction t arbitrary: par) auto

lemma crep_upd [simp]: "a \<notin> set (caddrl c) \<Longrightarrow> crep (h(a := v)) tp q c p = crep h tp q c p"
  by (induction c arbitrary: p) auto

lemma ptr_of_notin [simp]:
  "a \<notin> set (addrl t) \<Longrightarrow> ptr_of t \<noteq> Some a"
  "a \<notin> set (addrl t) \<Longrightarrow> Some a \<noteq> ptr_of t"
  by (cases t; auto)+

lemma ptr_of_in: "ptr_of t = Some a \<Longrightarrow> a \<in> set (addrl t)"
  by (cases t) auto

lemma rp_plug:
  "(q = ptr_of (plug c t) \<and> rp h tp (plug c t)) = (crep h tp q c (ptr_of t) \<and> rp h (cpar tp c) t)"
  by (induction c arbitrary: t) auto

lemma set_addrl_plug: "set (addrl (plug c t)) = set (caddrl c) \<union> set (addrl t)"
  by (induction c arbitrary: t) auto

lemma distinct_plug: "distinct (addrl (plug c t)) = distinct (caddrl c @ addrl t)"
  by (induction c arbitrary: t) auto

lemma inorder_plug: "inorder (plug c t) = cinl c @ inorder t @ cinr c"
  by (induction c arbitrary: t) auto

lemma tree_of_plug:
  "tree_of s (plug c t) =
     (crep (nodes s) None (root s) c (ptr_of t) \<and> rp (nodes s) (cpar None c) t
      \<and> distinct (caddrl c @ addrl t))"
  using rp_plug [of "root s" c t "nodes s" None] by (auto simp: tree_of_def distinct_plug)

lemma tree_of_Nd:
  "tree_of s (Nd l x k d r) = (root s = Some x \<and> rp (nodes s) None (Nd l x k d r)
      \<and> distinct (addrl (Nd l x k d r)))"
  by (simp add: tree_of_def)

lemma tree_of_Lf: "tree_of s Lf = (root s = None)"
  by (simp add: tree_of_def)

lemmas tree_of_simps = tree_of_plug tree_of_Nd tree_of_Lf

lemma same_refl [simp]: "same s s A"
  by (simp add: same_def)

lemma same_trans: "same s s1 A \<Longrightarrow> same s1 s2 A \<Longrightarrow> same s s2 A"
  by (simp add: same_def)

lemma same_mono: "same s s' A \<Longrightarrow> A \<subseteq> B \<Longrightarrow> same s s' B"
  by (auto simp: same_def)

section \<open>Reading a node of the tree\<close>

lemma node_focus:
  "tree_of s (plug c (Nd l x k d r)) \<Longrightarrow>
     nodes s x = Some \<lparr>parent = cpar None c, left = ptr_of l, right = ptr_of r, data = Some d, color = k\<rparr>"
  by (simp add: tree_of_plug)

lemma getSide_focus:
  assumes "tree_of s (plug c (Nd l x k d r))"
  shows "getSide s (Some x) = Some (cside c)"
  using assms by (cases c) (auto simp: tree_of_simps getSide_def)

section \<open>Primitive steps on the tree\<close>

lemma recolor_focus:
  assumes "tree_of s (plug c (Nd l x k d r))"
  shows "\<exists>s'. put (Some x) (\<lambda>n. n\<lparr>color := k'\<rparr>) s = Some s'
           \<and> tree_of s' (plug c (Nd l x k' d r)) \<and> same s s' {x}"
  using assms by (cases c) (auto simp: tree_of_simps same_def)

lemma rotate_rb_L:
  assumes "tree_of s (plug c (Nd (Nd a x cx dx b) y cy dy r))"
  shows "\<exists>s'. rotate_rb s (Some x) (Some y) = Some s'
     \<and> tree_of s' (plug c (Nd a x cx dx (Nd b y cy dy r)))
     \<and> same s s' (set (addrl (plug c (Nd (Nd a x cx dx b) y cy dy r))))"
proof (cases c)
  case Top
  show ?thesis
  proof (cases b)
    case Lf
    show ?thesis using assms Top Lf
      by (simp add: tree_of_simps rotate_rb_def getSide_def connectNodes_def same_def)
  next
    case (Nd bl b0 bc bd br)
    show ?thesis using assms Top Nd
      by (simp add: tree_of_simps rotate_rb_def getSide_def connectNodes_def same_def)
  qed
next
  case (InL c' g gc gd gr)
  show ?thesis
  proof (cases b)
    case Lf
    show ?thesis using assms InL Lf
      by (simp add: tree_of_simps set_addrl_plug rotate_rb_def getSide_def connectNodes_def same_def)
  next
    case (Nd bl b0 bc bd br)
    show ?thesis using assms InL Nd
      by (simp add: tree_of_simps set_addrl_plug rotate_rb_def getSide_def connectNodes_def same_def)
  qed
next
  case (InR gl g gc gd c')
  show ?thesis
  proof (cases b)
    case Lf
    show ?thesis using assms InR Lf
      by (simp add: tree_of_simps set_addrl_plug rotate_rb_def getSide_def connectNodes_def same_def)
  next
    case (Nd bl b0 bc bd br)
    show ?thesis using assms InR Nd
      by (simp add: tree_of_simps set_addrl_plug rotate_rb_def getSide_def connectNodes_def same_def)
  qed
qed

lemma rotate_rb_R:
  assumes "tree_of s (plug c (Nd l y cy dy (Nd a x cx dx b)))"
  shows "\<exists>s'. rotate_rb s (Some x) (Some y) = Some s'
     \<and> tree_of s' (plug c (Nd (Nd l y cy dy a) x cx dx b))
     \<and> same s s' (set (addrl (plug c (Nd l y cy dy (Nd a x cx dx b)))))"
proof (cases c)
  case Top
  show ?thesis
  proof (cases a)
    case Lf
    show ?thesis using assms Top Lf
      by (simp add: tree_of_simps rotate_rb_def getSide_def connectNodes_def same_def)
  next
    case (Nd bl b0 bc bd br)
    show ?thesis using assms Top Nd
      by (simp add: tree_of_simps rotate_rb_def getSide_def connectNodes_def same_def)
  qed
next
  case (InL c' g gc gd gr)
  show ?thesis
  proof (cases a)
    case Lf
    show ?thesis using assms InL Lf
      by (simp add: tree_of_simps set_addrl_plug rotate_rb_def getSide_def connectNodes_def same_def)
  next
    case (Nd bl b0 bc bd br)
    show ?thesis using assms InL Nd
      by (simp add: tree_of_simps set_addrl_plug rotate_rb_def getSide_def connectNodes_def same_def)
  qed
next
  case (InR gl g gc gd c')
  show ?thesis
  proof (cases a)
    case Lf
    show ?thesis using assms InR Lf
      by (simp add: tree_of_simps set_addrl_plug rotate_rb_def getSide_def connectNodes_def same_def)
  next
    case (Nd bl b0 bc bd br)
    show ?thesis using assms InR Nd
      by (simp add: tree_of_simps set_addrl_plug rotate_rb_def getSide_def connectNodes_def same_def)
  qed
qed

lemma rp_ptr_unique:
  "rp h par t \<Longrightarrow> rp h par' t' \<Longrightarrow> ptr_of t = ptr_of t' \<Longrightarrow> t = t'"
proof (induction t arbitrary: par par' t')
  case Lf
  then show ?case by (cases t') auto
next
  case (Nd l a k d r)
  then show ?case by (cases t') auto
qed

lemma tree_of_unique: "tree_of s t \<Longrightarrow> tree_of s t' \<Longrightarrow> t = t'"
  by (auto simp: tree_of_def intro: rp_ptr_unique)

lemma connectNode_hole:
  assumes "crep (nodes s) None (root s) c p" and "rp (nodes s) pu u"
    and "distinct (caddrl c @ addrl u)"
  shows "\<exists>s'. connectNode s (ptr_of u) (cpar None c) (cside c) = Some s'
     \<and> tree_of s' (plug c u) \<and> same s s' (set (caddrl c) \<union> set (addrl u))"
proof (cases c)
  case Top
  show ?thesis
  proof (cases u)
    case Lf
    show ?thesis using assms Top Lf
      by (auto simp add: tree_of_simps connectNode_def same_def)
  next
    case (Nd ul u0 uc ud ur)
    show ?thesis using assms Top Nd
      by (auto simp add: tree_of_simps connectNode_def same_def)
  qed
next
  case (InL c' g gc gd gr)
  show ?thesis
  proof (cases u)
    case Lf
    show ?thesis using assms InL Lf
      by (auto simp add: tree_of_simps connectNode_def same_def)
  next
    case (Nd ul u0 uc ud ur)
    show ?thesis using assms InL Nd
      by (auto simp add: tree_of_simps connectNode_def same_def)
  qed
next
  case (InR gl g gc gd c')
  show ?thesis
  proof (cases u)
    case Lf
    show ?thesis using assms InR Lf
      by (auto simp add: tree_of_simps connectNode_def same_def)
  next
    case (Nd ul u0 uc ud ur)
    show ?thesis using assms InR Nd
      by (auto simp add: tree_of_simps connectNode_def same_def)
  qed
qed

section \<open>Traversal\<close>

fun forEachList :: "('a option \<Rightarrow> 'c \<Rightarrow> int \<times> 'c) \<Rightarrow> 'a list \<Rightarrow> 'c \<Rightarrow> int \<times> 'c" where
  "forEachList func [] args = (SUCCESS, args)"
| "forEachList func (x # xs) args =
     (if fst (func (Some x) args) = FAILURE then (FAILURE, snd (func (Some x) args))
      else forEachList func xs (snd (func (Some x) args)))"

lemma forEachList_append:
  "forEachList func (xs @ ys) args =
     (if fst (forEachList func xs args) = FAILURE then (FAILURE, snd (forEachList func xs args))
      else forEachList func ys (snd (forEachList func xs args)))"
  by (induction xs arbitrary: args) auto

lemma forEachList_fst: "fst (forEachList func xs args) = FAILURE \<or> fst (forEachList func xs args) = SUCCESS"
  by (induction xs arbitrary: args) auto

lemma forEachNode_rp:
  "rp (nodes s) par t \<Longrightarrow> forEachNode s (ptr_of t) func args = Some (forEachList func (inorder t) args)"
proof (induction t arbitrary: par args)
  case Lf
  show ?case by (subst forEachNode.simps) simp
next
  case (Nd l a k d r)
  from Nd.prems have n: "nodes s a = Some \<lparr>parent = par, left = ptr_of l, right = ptr_of r, data = Some d, color = k\<rparr>"
    and l: "rp (nodes s) (Some a) l" and r: "rp (nodes s) (Some a) r" by auto
  show ?case
    using forEachList_fst [of func "inorder r" "snd (func (Some d) (snd (forEachList func (inorder l) args)))"]
    by (subst forEachNode.simps)
       (auto simp: n Nd.IH(1) [OF l] Nd.IH(2) [OF r] forEachList_append Let_def prod_eq_iff)
qed

section \<open>Lookup\<close>

lemma findNode_loop_absent:
  "rp (nodes s) par t \<Longrightarrow> \<forall>d\<in>set (inorder t). compFunc x (Some d) \<noteq> 0
     \<Longrightarrow> findNode_loop compFunc s x (ptr_of t) = Some None"
proof (induction t arbitrary: par)
  case Lf
  show ?case by (subst findNode_loop.simps) simp
next
  case (Nd l a k d r)
  from Nd.prems have n: "nodes s a = Some \<lparr>parent = par, left = ptr_of l, right = ptr_of r, data = Some d, color = k\<rparr>"
    and l: "rp (nodes s) (Some a) l" and r: "rp (nodes s) (Some a) r" by auto
  from Nd.prems have "findNode_loop compFunc s x (ptr_of l) = Some None"
    "findNode_loop compFunc s x (ptr_of r) = Some None" "compFunc x (Some d) \<noteq> 0"
    using Nd.IH(1) [OF l] Nd.IH(2) [OF r] by auto
  then show ?case
    by (subst findNode_loop.simps) (simp add: n Let_def)
qed

section \<open>Binary-search descent\<close>

text \<open>The comparator's contract on payloads: the sign of \<open>compFunc a b\<close> is the opposite of the
  sign of \<open>compFunc b a\<close>, and "not greater" is transitive. In-order positions respect the
  comparator when each payload compares less than every later one.\<close>

definition cmp_ok :: "('a option \<Rightarrow> 'a option \<Rightarrow> int) \<Rightarrow> bool" where
  "cmp_ok f = ((\<forall>a b. (f (Some a) (Some b) < 0) = (0 < f (Some b) (Some a)))
     \<and> (\<forall>a b c. f (Some a) (Some b) \<le> 0 \<and> f (Some b) (Some c) \<le> 0 \<longrightarrow> f (Some a) (Some c) \<le> 0))"

definition lt :: "('a option \<Rightarrow> 'a option \<Rightarrow> int) \<Rightarrow> 'a \<Rightarrow> 'a \<Rightarrow> bool" where
  "lt f a b = (f (Some a) (Some b) < 0)"

definition bst :: "('a option \<Rightarrow> 'a option \<Rightarrow> int) \<Rightarrow> 'a tr \<Rightarrow> bool" where
  "bst f t = sorted_wrt (lt f) (inorder t)"

text \<open>Where the descent of \<open>insertNode\<close> ends: \<open>None\<close> at a node that compares equal, otherwise
  the empty position reached, as the context around it.\<close>

fun ins_pos :: "('a option \<Rightarrow> 'a option \<Rightarrow> int) \<Rightarrow> 'a \<Rightarrow> 'a ctx \<Rightarrow> 'a tr \<Rightarrow> 'a ctx option" where
  "ins_pos f x c Lf = Some c"
| "ins_pos f x c (Nd l a k d r) =
     (if f (Some x) (Some d) = 0 then None
      else if f (Some x) (Some d) < 0 then ins_pos f x (InL c a k d r) l
      else ins_pos f x (InR l a k d c) r)"

lemma cmp_ok_flip: "cmp_ok f \<Longrightarrow> (f (Some a) (Some b) < 0) = (0 < f (Some b) (Some a))"
  by (simp add: cmp_ok_def)

lemma cmp_ok_eq_flip: "cmp_ok f \<Longrightarrow> (f (Some a) (Some b) = 0) = (f (Some b) (Some a) = 0)"
  using cmp_ok_flip [of f a b] cmp_ok_flip [of f b a] by auto

lemma cmp_ok_le_trans:
  "cmp_ok f \<Longrightarrow> f (Some a) (Some b) \<le> 0 \<Longrightarrow> f (Some b) (Some c) \<le> 0 \<Longrightarrow> f (Some a) (Some c) \<le> 0"
  unfolding cmp_ok_def by blast

lemma lt_trans: "cmp_ok f \<Longrightarrow> lt f a b \<Longrightarrow> lt f b c \<Longrightarrow> lt f a c"
  using cmp_ok_le_trans [of f a b c] cmp_ok_le_trans [of f c a b] cmp_ok_flip [of f b c]
    cmp_ok_flip [of f c a] cmp_ok_flip [of f a c]
  by (fastforce simp: lt_def)

lemma lt_eq_left: "cmp_ok f \<Longrightarrow> f (Some x) (Some e) = 0 \<Longrightarrow> lt f x d \<Longrightarrow> lt f e d"
  using cmp_ok_le_trans [of f d e x] cmp_ok_flip [of f x d] cmp_ok_flip [of f e d]
    cmp_ok_flip [of f d e] cmp_ok_eq_flip [of f x e]
  by (fastforce simp: lt_def)

lemma lt_eq_right: "cmp_ok f \<Longrightarrow> f (Some x) (Some e) = 0 \<Longrightarrow> lt f d x \<Longrightarrow> lt f d e"
  using cmp_ok_le_trans [of f x e d] cmp_ok_flip [of f d x] cmp_ok_flip [of f d e]
    cmp_ok_flip [of f e d] cmp_ok_eq_flip [of f x e]
  by (fastforce simp: lt_def)

lemma lt_irrefl: "cmp_ok f \<Longrightarrow> \<not> lt f a a"
  using cmp_ok_flip [of f a a] by (auto simp: lt_def)

lemma lt_asym: "cmp_ok f \<Longrightarrow> lt f a b \<Longrightarrow> \<not> lt f b a"
  using cmp_ok_flip [of f a b] by (auto simp: lt_def)

lemma ins_pos_None:
  assumes "cmp_ok f" and "sorted_wrt (lt f) (inorder t)"
  shows "(ins_pos f x c t = None) = (\<exists>d\<in>set (inorder t). f (Some x) (Some d) = 0)"
  using assms(2)
proof (induction t arbitrary: c)
  case Lf
  show ?case by simp
next
  case (Nd l a k d r)
  from Nd.prems have sl: "sorted_wrt (lt f) (inorder l)" and sr: "sorted_wrt (lt f) (inorder r)"
    and ld: "\<forall>e\<in>set (inorder l). lt f e d" and dr: "\<forall>e\<in>set (inorder r). lt f d e"
    by (auto simp: sorted_wrt_append)
  show ?case
  proof (cases "f (Some x) (Some d) = 0")
    case True
    then show ?thesis by simp
  next
    case False
    show ?thesis
    proof (cases "f (Some x) (Some d) < 0")
      case True
      then have xd: "lt f x d" by (simp add: lt_def)
      have "\<not> (\<exists>e\<in>set (inorder r). f (Some x) (Some e) = 0)"
        using lt_eq_left [OF assms(1) _ xd] dr lt_asym [OF assms(1)] by blast
      with True False Nd.IH(1) [OF sl] show ?thesis by auto
    next
      case F2: False
      with False have "0 < f (Some x) (Some d)" by simp
      then have dx: "lt f d x" using cmp_ok_flip [OF assms(1), of d x] by (simp add: lt_def)
      have "\<not> (\<exists>e\<in>set (inorder l). f (Some x) (Some e) = 0)"
        using lt_eq_right [OF assms(1) _ dx] ld lt_asym [OF assms(1)] by blast
      with F2 False Nd.IH(2) [OF sr] show ?thesis by auto
    qed
  qed
qed

lemma ins_pos_Some:
  assumes "cmp_ok f"
  shows "ins_pos f x c t = Some c' \<Longrightarrow> \<forall>e\<in>set (cinl c). lt f e x \<Longrightarrow> \<forall>e\<in>set (cinr c). lt f x e
    \<Longrightarrow> sorted_wrt (lt f) (inorder t)
    \<Longrightarrow> plug c' Lf = plug c t \<and> (\<forall>e\<in>set (cinl c'). lt f e x) \<and> (\<forall>e\<in>set (cinr c'). lt f x e)"
proof (induction t arbitrary: c)
  case Lf
  then show ?case by simp
next
  case (Nd l a k d r)
  from Nd.prems(4) have sl: "sorted_wrt (lt f) (inorder l)" and sr: "sorted_wrt (lt f) (inorder r)"
    and ld: "\<forall>e\<in>set (inorder l). lt f e d" and dr: "\<forall>e\<in>set (inorder r). lt f d e"
    by (auto simp: sorted_wrt_append)
  show ?case
  proof (cases "f (Some x) (Some d) < 0")
    case True
    with Nd.prems have p: "ins_pos f x (InL c a k d r) l = Some c'"
      by (auto split: if_splits)
    from True have xd: "lt f x d" by (simp add: lt_def)
    have "\<forall>e\<in>set (cinr (InL c a k d r)). lt f x e"
      using Nd.prems(3) xd dr lt_trans [OF assms xd] by auto
    with Nd.IH(1) [OF p _ _ sl] Nd.prems(2) show ?thesis by simp
  next
    case False
    with Nd.prems have p: "ins_pos f x (InR l a k d c) r = Some c'" and "0 < f (Some x) (Some d)"
      by (auto split: if_splits)
    then have dx: "lt f d x" using cmp_ok_flip [OF assms(1), of d x] by (simp add: lt_def)
    have "\<forall>e\<in>set (cinl (InR l a k d c)). lt f e x"
      using Nd.prems(2) dx ld lt_trans [OF assms _ dx] by auto
    with Nd.IH(2) [OF p _ _ sr] Nd.prems(3) show ?thesis by simp
  qed
qed

lemma rp_alloc: "rp h par t \<Longrightarrow> a \<in> set (addrl t) \<Longrightarrow> h a \<noteq> None"
  by (induction t arbitrary: par) auto

lemma tree_of_alloc: "tree_of s t \<Longrightarrow> nodes s a = None \<Longrightarrow> a \<notin> set (addrl t)"
  using rp_alloc [of "nodes s" None t a] by (auto simp: tree_of_def)

lemma tree_of_nodes_upd:
  "tree_of s t \<Longrightarrow> a \<notin> set (addrl t) \<Longrightarrow> tree_of (s\<lparr>nodes := (nodes s)(a := v)\<rparr>) t"
  by (simp add: tree_of_def)

definition dealloc :: "addr \<Rightarrow> 'a state \<Rightarrow> 'a state" where
  "dealloc a s = s\<lparr>nodes := (nodes s)(a := None)\<rparr>"

lemma dealloc_simps [simp]:
  "nodes (dealloc a s) = (nodes s)(a := None)" "root (dealloc a s) = root s"
  "size_f (dealloc a s) = size_f s" "vars (dealloc a s) = vars s"
  "destructed (dealloc a s) = destructed s"
  by (simp_all add: dealloc_def)

lemma free_Some [simp]: "nodes s a = Some n \<Longrightarrow> free (Some a) s = Some (dealloc a s)"
  by (simp add: free_def dealloc_def)

lemma insertNode_loop_None:
  "insertNode_loop f s newNode None par side =
     connectNode s newNode par side \<bind> (\<lambda>s1. Some (SUCCESS, s1))"
  by (subst insertNode_loop.simps) simp

lemma insertNode_loop_Some:
  "nodes s a = Some na \<Longrightarrow> nodes s n = Some nn \<Longrightarrow>
   insertNode_loop f s (Some a) (Some n) par side =
     (if f (data na) (data nn) = 0 then Some (FAILURE, dealloc a s)
      else if f (data na) (data nn) < 0 then insertNode_loop f s (Some a) (left nn) (Some n) LEFT
      else insertNode_loop f s (Some a) (right nn) (Some n) RIGHT)"
  by (subst insertNode_loop.simps) (simp add: Let_def)

lemma insertNode_loop_dup:
  assumes "nodes s a = Some \<lparr>parent = None, left = None, right = None, data = Some x, color = k\<rparr>"
  shows "tree_of s (plug c t) \<Longrightarrow> ins_pos f x c t = None \<Longrightarrow>
    insertNode_loop f s (Some a) (ptr_of t) (cpar None c) (cside c)
      = Some (FAILURE, dealloc a s)"
proof (induction t arbitrary: c)
  case Lf
  then show ?case by simp
next
  case (Nd l n kn d r)
  from Nd.prems have n: "nodes s n = Some \<lparr>parent = cpar None c, left = ptr_of l, right = ptr_of r, data = Some d, color = kn\<rparr>"
    by (simp add: tree_of_plug)
  have L: "tree_of s (plug (InL c n kn d r) l)" and R: "tree_of s (plug (InR l n kn d c) r)"
    using Nd.prems by simp_all
  consider "f (Some x) (Some d) = 0" | "f (Some x) (Some d) < 0" | "0 < f (Some x) (Some d)"
    by linarith
  then show ?case
  proof cases
    case 1
    then show ?thesis by (simp add: insertNode_loop_Some [OF assms n])
  next
    case 2
    with Nd.prems(2) have "ins_pos f x (InL c n kn d r) l = None" by simp
    from Nd.IH(1) [OF L this] 2 show ?thesis
      by (simp add: insertNode_loop_Some [OF assms n])
  next
    case 3
    with Nd.prems(2) have "ins_pos f x (InR l n kn d c) r = None" by simp
    from Nd.IH(2) [OF R this] 3 show ?thesis
      by (simp add: insertNode_loop_Some [OF assms n])
  qed
qed

lemma insertNode_loop_new:
  assumes "nodes s a = Some \<lparr>parent = None, left = None, right = None, data = Some x, color = k\<rparr>"
  shows "tree_of s (plug c t) \<Longrightarrow> a \<notin> set (addrl (plug c t)) \<Longrightarrow> ins_pos f x c t = Some c' \<Longrightarrow>
    \<exists>s'. insertNode_loop f s (Some a) (ptr_of t) (cpar None c) (cside c) = Some (SUCCESS, s')
       \<and> tree_of s' (plug c' (Nd Lf a k x Lf))
       \<and> same s s' (insert a (set (addrl (plug c t))))"
proof (induction t arbitrary: c)
  case Lf
  from Lf.prems have c: "crep (nodes s) None (root s) c None" and d: "distinct (caddrl c @ addrl (Nd Lf a k x Lf))"
    by (auto simp: tree_of_plug set_addrl_plug)
  have r: "rp (nodes s) None (Nd Lf a k x Lf)" using assms by simp
  from connectNode_hole [OF c r d] Lf.prems(3) show ?case
    by (auto simp: insertNode_loop_None set_addrl_plug Un_commute)
next
  case (Nd l n kn d r)
  from Nd.prems have n: "nodes s n = Some \<lparr>parent = cpar None c, left = ptr_of l, right = ptr_of r, data = Some d, color = kn\<rparr>"
    by (simp add: tree_of_plug)
  have L: "tree_of s (plug (InL c n kn d r) l)" "a \<notin> set (addrl (plug (InL c n kn d r) l))"
    and R: "tree_of s (plug (InR l n kn d c) r)" "a \<notin> set (addrl (plug (InR l n kn d c) r))"
    using Nd.prems by simp_all
  show ?case
    using Nd.IH(1) [OF L] Nd.IH(2) [OF R] Nd.prems(3)
    by (simp add: insertNode_loop_Some [OF assms n] split: if_splits)
qed

fun rotate_tr :: "addr \<Rightarrow> 'a tr \<Rightarrow> 'a tr" where
  "rotate_tr x (Nd (Nd a xl cl dl b) y cy dy r) =
     (if xl = x then Nd a xl cl dl (Nd b y cy dy r)
      else (case r of Nd a' xr cr dr b' \<Rightarrow> Nd (Nd (Nd a xl cl dl b) y cy dy a') xr cr dr b'
            | Lf \<Rightarrow> Nd (Nd a xl cl dl b) y cy dy r))"
| "rotate_tr x (Nd Lf y cy dy (Nd a xr cr dr b)) = Nd (Nd Lf y cy dy a) xr cr dr b"
| "rotate_tr x t = t"

definition exampleCompare :: "int option \<Rightarrow> int option \<Rightarrow> int" where
  "exampleCompare a b = (case a of None \<Rightarrow> 0 | Some x \<Rightarrow> x) - (case b of None \<Rightarrow> 0 | Some y \<Rightarrow> y)"

definition leaf :: "ptr \<Rightarrow> Color \<Rightarrow> int \<Rightarrow> int Node" where
  "leaf p k d = \<lparr>parent = p, left = None, right = None, data = Some d, color = k\<rparr>"

definition st1 :: "int state" where
  "st1 = newRBTree\<lparr>nodes := (\<lambda>a. None)(1 \<mapsto> leaf None BLACK 0), root := Some 1, size_f := 1\<rparr>"

definition st2 :: "int state" where
  "st2 = newRBTree\<lparr>nodes := (\<lambda>a. None)(
      2 \<mapsto> \<lparr>parent = None, left = Some 1, right = None, data = Some 20, color = BLACK\<rparr>,
      1 \<mapsto> leaf (Some 2) RED 10), root := Some 2, size_f := 2\<rparr>"

lemma rotate_rb_child:
  assumes "tree_of s (plug c (Nd l y cy dy r))" and "ptr_of l = Some x \<or> ptr_of r = Some x"
  shows "\<exists>s'. rotate_rb s (Some x) (Some y) = Some s'
     \<and> tree_of s' (plug c (rotate_tr x (Nd l y cy dy r)))
     \<and> ptr_of (rotate_tr x (Nd l y cy dy r)) = Some x
     \<and> inorder (plug c (rotate_tr x (Nd l y cy dy r))) = inorder (plug c (Nd l y cy dy r))
     \<and> same s s' (set (addrl (plug c (Nd l y cy dy r))))"
proof -
  from assms(1) have d: "distinct (addrl l @ y # addrl r)"
    by (simp add: tree_of_plug)
  from assms(2) show ?thesis
  proof
    assume "ptr_of l = Some x"
    then obtain a k d b where l: "l = Nd a x k d b" by (cases l) auto
    from rotate_rb_L [OF assms(1) [unfolded l]] show ?thesis
      by (auto simp: l inorder_plug)
  next
    assume "ptr_of r = Some x"
    then obtain a k d' b where r: "r = Nd a x k d' b" by (cases r) auto
    have "rotate_tr x (Nd l y cy dy r) = Nd (Nd l y cy dy a) x k d' b"
      using d by (cases l) (auto simp: r)
    with rotate_rb_R [OF assms(1) [unfolded r]] show ?thesis
      by (auto simp: r inorder_plug)
  qed
qed

text \<open>
  C9. Let \<open>y\<close> be a node of the tree, at the root of the subtree \<open>Nd l y cy dy r\<close> in the
  context \<open>c\<close>, and \<open>x\<close> a direct child of \<open>y\<close>. Then \<open>rotate(tree, x, y)\<close> returns, the
  store holds the rotated tree, \<open>x\<close> stands where \<open>y\<close> stood (in the same context \<open>c\<close>:
  under the same grandparent, or at the root), and the in-order sequence of the payloads
  of the whole tree is unchanged.
\<close>

theorem rotate_keeps_inorder:
  assumes "tree_of s (plug c (Nd l y cy dy r))" and "ptr_of l = Some x \<or> ptr_of r = Some x"
  shows "\<exists>s'. rotate_rb s (Some x) (Some y) = Some s'
     \<and> tree_of s' (plug c (rotate_tr x (Nd l y cy dy r)))
     \<and> ptr_of (rotate_tr x (Nd l y cy dy r)) = Some x
     \<and> inorder (plug c (rotate_tr x (Nd l y cy dy r))) = inorder (plug c (Nd l y cy dy r))"
  using rotate_rb_child [OF assms] by blast

lemma tree_of_st2: "tree_of st2 (Nd (Nd Lf 1 RED 10 Lf) 2 BLACK 20 Lf)"
  by (simp add: tree_of_def st2_def leaf_def newRBTree_def)

theorem rotate_keeps_inorder_witness:
  "tree_of st2 (plug Top (Nd (Nd Lf 1 RED 10 Lf) 2 BLACK 20 Lf))
   \<and> (\<exists>s'. rotate_rb st2 (Some 1) (Some 2) = Some s'
       \<and> tree_of s' (Nd Lf 1 RED 10 (Nd Lf 2 BLACK 20 Lf))
       \<and> inorder (Nd Lf 1 RED 10 (Nd Lf 2 BLACK (20::int) Lf)) = [10, 20])"
  using rotate_keeps_inorder [of st2 Top "Nd Lf 1 RED 10 Lf" 2 BLACK 20 Lf 1] tree_of_st2
  by simp

text \<open>
  C6. \<open>forEachList\<close> says what the specification asks of \<open>forEach\<close>: the callback is
  applied to the payloads in the given order, each call gets the context the previous one
  left, the first failing call ends the walk with failure and the later payloads are not
  visited, and the walk succeeds when the list is empty or no call fails. On every tree
  \<open>forEachRBTree\<close> is \<open>forEachList\<close> on the in-order sequence of the payloads.
\<close>

theorem forEachRBTree_inorder:
  assumes "tree_of s t"
  shows "forEachRBTree (Some s) func args = Some (forEachList func (inorder t) args)"
proof (cases t)
  case Lf
  with assms show ?thesis by (simp add: forEachRBTree_def tree_of_def)
next
  case (Nd l a k d r)
  with assms have "root s = Some a" "rp (nodes s) None t"
    by (auto simp: tree_of_def)
  with forEachNode_rp [of s None t func args] show ?thesis
    by (simp add: forEachRBTree_def Nd)
qed

definition stopAt :: "int \<Rightarrow> int option \<Rightarrow> int list \<Rightarrow> int \<times> int list" where
  "stopAt k d seen = (case d of None \<Rightarrow> (0, seen) | Some x \<Rightarrow> (if x = k then 0 else 1, seen @ [x]))"

theorem forEachRBTree_inorder_witness:
  "tree_of st2 (Nd (Nd Lf 1 RED 10 Lf) 2 BLACK 20 Lf)
   \<and> forEachRBTree (Some st2) (stopAt 10) [] = Some (FAILURE, [10])
   \<and> forEachRBTree (Some st2) (stopAt 30) [] = Some (SUCCESS, [10, 20])"
  using forEachRBTree_inorder [OF tree_of_st2, of "stopAt 10" "[]"]
    forEachRBTree_inorder [OF tree_of_st2, of "stopAt 30" "[]"] tree_of_st2
  by (simp add: stopAt_def)

text \<open>
  C4. When no payload of the tree compares equal to \<open>x\<close>, \<open>deleteFromRBTree\<close> returns
  failure and the state it leaves is the state it got: no node, no link, not the size and
  not the log of destructed payloads has changed. For a \<open>NULL\<close> tree it returns failure.
\<close>

lemma deleteFromRBTree_absent:
  assumes "tree_of s t" and "\<forall>d\<in>set (inorder t). compFunc x (Some d) \<noteq> 0"
  shows "deleteFromRBTree compFunc (Some s) x = Some (FAILURE, Some s)"
proof -
  from assms have "findNode compFunc s x = Some None"
    using findNode_loop_absent [of s None t compFunc x] by (simp add: findNode_def tree_of_def)
  then show ?thesis
    by (simp add: deleteFromRBTree_def placeBeforeDeletion_def)
qed

theorem delete_absent_unchanged:
  "(tree_of s t \<and> (\<forall>d\<in>set (inorder t). compFunc x (Some d) \<noteq> 0)
      \<longrightarrow> deleteFromRBTree compFunc (Some s) x = Some (FAILURE, Some s))
   \<and> deleteFromRBTree compFunc None x = Some (FAILURE, None)"
  using deleteFromRBTree_absent [of s t compFunc x] by (simp add: deleteFromRBTree_def)

theorem delete_absent_unchanged_witness:
  "tree_of st2 (Nd (Nd Lf 1 RED 10 Lf) 2 BLACK 20 Lf)
   \<and> deleteFromRBTree exampleCompare (Some st2) (Some 15) = Some (FAILURE, Some st2)
   \<and> deleteFromRBTree exampleCompare None (Some 15) = Some (FAILURE, None)"
  using delete_absent_unchanged [of st2 "Nd (Nd Lf 1 RED 10 Lf) 2 BLACK 20 Lf" exampleCompare "Some 15"]
    tree_of_st2
  by (simp add: exampleCompare_def)

text \<open>
  C5. \<open>deleteFromRBTree\<close> and \<open>RBTreeContains\<close> do not test the payload for \<open>NULL\<close> as
  \<open>insertToRBTree\<close> does: they hand it to the comparator. With a comparator that reads a
  \<open>NULL\<close> payload as the key 0, on the tree that holds only the key 0,
  \<open>RBTreeContains(tree, NULL)\<close> returns 1 and \<open>deleteFromRBTree(tree, NULL)\<close> returns success,
  having removed and destructed the node.
\<close>

theorem null_payload_reaches_comparator:
  "RBTreeContains exampleCompare (Some st1) None = Some 1
   \<and> map_option (\<lambda>r. (fst r, map_option root (snd r), map_option destructed (snd r)))
         (deleteFromRBTree exampleCompare (Some st1) None) = Some (SUCCESS, Some None, Some [Some 0])"
  by code_simp

lemma cmp_ok_exampleCompare: "cmp_ok exampleCompare"
  by (auto simp: cmp_ok_def exampleCompare_def)

lemma insert_dup:
  assumes "cmp_ok f" and "tree_of s t" and "bst f t" and "d \<in> set (inorder t)"
    and "f (Some x) (Some d) = 0" and "nodes s a = None"
  shows "insertToRBTree f (Some s) (Some a) (Some x) = Some (FAILURE, Some s)"
proof -
  define n0 :: "'a Node" where "n0 = \<lparr>parent = None, left = None, right = None, data = Some x, color = BLACK\<rparr>"
  define s0 where "s0 = s\<lparr>nodes := (nodes s)(a \<mapsto> n0)\<rparr>"
  from assms(4) obtain l b k e r where t: "t = Nd l b k e r" by (cases t) auto
  with assms(2) have rt: "root s = Some b" by (simp add: tree_of_def)
  have a: "a \<notin> set (addrl t)" using tree_of_alloc [OF assms(2,6)] .
  have t0: "tree_of s0 (plug Top t)" using tree_of_nodes_upd [OF assms(2) a] by (simp add: s0_def)
  have n: "nodes s0 a = Some \<lparr>parent = None, left = None, right = None, data = Some x, color = BLACK\<rparr>"
    by (simp add: s0_def n0_def)
  have "ins_pos f x Top t = None"
    using ins_pos_None [OF assms(1), of t x Top] assms(3,4,5) by (auto simp: bst_def)
  from insertNode_loop_dup [OF n t0 this]
  have "insertNode f s0 (Some a) = Some (FAILURE, dealloc a s0)"
    using rt by (simp add: insertNode_def s0_def t)
  moreover have "dealloc a s0 = s"
  proof -
    have "(nodes s)(a := None) = nodes s" using assms(6) by (rule fun_upd_idem)
    then show ?thesis by (simp add: dealloc_def s0_def)
  qed
  ultimately show ?thesis
    using rt by (simp add: insertToRBTree_def s0_def n0_def)
qed

text \<open>
  C3. When the payload compares equal to a payload of the tree, \<open>insertToRBTree\<close> returns
  failure and the state it leaves is the state it got: the nodes, their links and colours
  and the size are unchanged. (\<open>a\<close> is the address \<open>malloc\<close> returned for the new node, not in
  use before the call.)
\<close>

theorem insert_duplicate_fails:
  assumes "cmp_ok f" and "tree_of s t" and "bst f t" and "d \<in> set (inorder t)"
    and "f (Some x) (Some d) = 0" and "nodes s a = None"
  shows "insertToRBTree f (Some s) (Some a) (Some x) = Some (FAILURE, Some s)"
  using insert_dup [OF assms] .

theorem insert_duplicate_fails_witness:
  "cmp_ok exampleCompare \<and> tree_of st2 (Nd (Nd Lf 1 RED 10 Lf) 2 BLACK 20 Lf)
   \<and> bst exampleCompare (Nd (Nd Lf 1 RED 10 Lf) 2 BLACK 20 Lf)
   \<and> exampleCompare (Some 20) (Some 20) = 0 \<and> nodes st2 3 = None
   \<and> insertToRBTree exampleCompare (Some st2) (Some 3) (Some 20) = Some (FAILURE, Some st2)"
proof -
  have b: "bst exampleCompare (Nd (Nd Lf 1 RED 10 Lf) 2 BLACK 20 Lf)"
    by (simp add: bst_def lt_def exampleCompare_def)
  have e: "exampleCompare (Some 20) (Some 20) = 0" by (simp add: exampleCompare_def)
  have n: "nodes st2 3 = None" by (simp add: st2_def newRBTree_def)
  from insert_duplicate_fails [OF cmp_ok_exampleCompare tree_of_st2 b _ e n]
  show ?thesis using cmp_ok_exampleCompare tree_of_st2 b e n by simp
qed

text \<open>
  C10. When \<open>insertToRBTree\<close> fails on a duplicate, nothing is handed to the destructor
  (the log of destructed payloads is what it was) and the storage of the node allocated
  for the insert is released.
\<close>

theorem insert_duplicate_keeps_payload:
  assumes "cmp_ok f" and "tree_of s t" and "bst f t" and "d \<in> set (inorder t)"
    and "f (Some x) (Some d) = 0" and "nodes s a = None"
  shows "\<exists>s'. insertToRBTree f (Some s) (Some a) (Some x) = Some (FAILURE, Some s')
     \<and> destructed s' = destructed s \<and> nodes s' a = None"
  using insert_dup [OF assms] assms(6) by simp

theorem insert_duplicate_keeps_payload_witness:
  "cmp_ok exampleCompare \<and> tree_of st2 (Nd (Nd Lf 1 RED 10 Lf) 2 BLACK 20 Lf)
   \<and> bst exampleCompare (Nd (Nd Lf 1 RED 10 Lf) 2 BLACK 20 Lf)
   \<and> exampleCompare (Some 10) (Some 10) = 0 \<and> nodes st2 3 = None
   \<and> (\<exists>s'. insertToRBTree exampleCompare (Some st2) (Some 3) (Some 10) = Some (FAILURE, Some s')
        \<and> destructed s' = [] \<and> nodes s' 3 = None)"
proof -
  have b: "bst exampleCompare (Nd (Nd Lf 1 RED 10 Lf) 2 BLACK 20 Lf)"
    by (simp add: bst_def lt_def exampleCompare_def)
  have e: "exampleCompare (Some 10) (Some 10) = 0" by (simp add: exampleCompare_def)
  have n: "nodes st2 3 = None" by (simp add: st2_def newRBTree_def)
  have d: "destructed st2 = []" by (simp add: st2_def newRBTree_def)
  from insert_duplicate_keeps_payload [OF cmp_ok_exampleCompare tree_of_st2 b _ e n]
  show ?thesis using cmp_ok_exampleCompare tree_of_st2 b e n d by simp
qed

section \<open>Pending colours\<close>

definition red_node :: "addr set \<Rightarrow> addr \<Rightarrow> 'a Node option \<Rightarrow> 'a Node option" where
  "red_node X a v = (if a \<in> X then map_option (\<lambda>n. n\<lparr>color := RED\<rparr>) v else v)"

definition redden :: "addr set \<Rightarrow> 'a state \<Rightarrow> 'a state" where
  "redden X s = s\<lparr>nodes := (\<lambda>a. red_node X a (nodes s a))\<rparr>"

lemma redden_fields [simp]:
  "root (redden X s) = root s" "size_f (redden X s) = size_f s" "vars (redden X s) = vars s"
  "destructed (redden X s) = destructed s"
  "nodes (redden X s) a = red_node X a (nodes s a)"
  by (simp_all add: redden_def)

lemma red_node_simps [simp]:
  "red_node X a None = None"
  "a \<notin> X \<Longrightarrow> red_node X a v = v"
  "a \<in> X \<Longrightarrow> red_node X a (Some n) = Some (n\<lparr>color := RED\<rparr>)"
  "red_node {} a v = v"
  by (simp_all add: red_node_def)

lemma map_option_red_node [simp]:
  "map_option parent (red_node X a v) = map_option parent v"
  "map_option left (red_node X a v) = map_option left v"
  "map_option right (red_node X a v) = map_option right v"
  "map_option data (red_node X a v) = map_option data v"
  by (cases v; simp add: red_node_def)+

lemma get_redden [simp]:
  "get parent (redden X s) p = get parent s p"
  "get left (redden X s) p = get left s p"
  "get right (redden X s) p = get right s p"
  "get data (redden X s) p = get data s p"
  by (cases p; simp add: get_def)+

lemma getSide_redden [simp]: "getSide (redden X s) p = getSide s p"
  by (simp add: getSide_def cong: if_cong)

lemma redden_root_upd [simp]: "(redden X s)\<lparr>root := r\<rparr> = redden X (s\<lparr>root := r\<rparr>)"
  by (simp add: redden_def)

lemma put_redden:
  assumes "\<And>n. g (n\<lparr>color := RED\<rparr>) = (g n)\<lparr>color := RED\<rparr>"
  shows "put p g (redden X s) = map_option (redden X) (put p g s)"
proof (cases p)
  case None
  then show ?thesis by (simp add: put_def)
next
  case (Some a)
  show ?thesis
  proof (cases "nodes s a")
    case None
    then show ?thesis using Some by (simp add: put_def)
  next
    case n: (Some n)
    show ?thesis using Some n
      by (simp add: put_def redden_def fun_eq_iff red_node_def assms)
  qed
qed

lemma put_redden_struct [simp]:
  "put p (\<lambda>n. n\<lparr>parent := v\<rparr>) (redden X s) = map_option (redden X) (put p (\<lambda>n. n\<lparr>parent := v\<rparr>) s)"
  "put p (\<lambda>n. n\<lparr>left := v\<rparr>) (redden X s) = map_option (redden X) (put p (\<lambda>n. n\<lparr>left := v\<rparr>) s)"
  "put p (\<lambda>n. n\<lparr>right := v\<rparr>) (redden X s) = map_option (redden X) (put p (\<lambda>n. n\<lparr>right := v\<rparr>) s)"
  by (rule put_redden; simp)+

lemma bind_map_option: "Option.bind (map_option f m) k = Option.bind m (\<lambda>x. k (f x))"
  by (cases m) auto

lemma bind_map_option_out: "Option.bind m (\<lambda>x. map_option f (k x)) = map_option f (Option.bind m k)"
  by (cases m) auto

lemma bind_Some_out: "Option.bind m (\<lambda>x. Some (f x)) = map_option f m"
  by (cases m) auto

lemma if_map_option_out:
  "(if b then map_option f A else map_option f B) = map_option f (if b then A else B)"
  "(if b then Some (f x) else map_option f B) = map_option f (if b then Some x else B)"
  "(if b then map_option f A else Some (f y)) = map_option f (if b then A else Some y)"
  by simp_all

lemmas pull_out = bind_map_option bind_map_option_out bind_Some_out if_map_option_out

lemma connectNodes_redden [simp]:
  "connectNodes (redden X s) p c side = map_option (redden X) (connectNodes s p c side)"
  by (simp add: connectNodes_def pull_out cong: if_cong)

lemma rotate_rb_redden:
  "rotate_rb (redden X s) c p = map_option (redden X) (rotate_rb s c p)"
  by (simp add: rotate_rb_def pull_out cong: if_cong)


definition setcol :: "addr \<Rightarrow> Color \<Rightarrow> 'a state \<Rightarrow> 'a state" where
  "setcol x k s = s\<lparr>nodes := (nodes s)(x := map_option (\<lambda>n. n\<lparr>color := k\<rparr>) (nodes s x))\<rparr>"

lemma setcol_fields [simp]:
  "root (setcol x k s) = root s" "size_f (setcol x k s) = size_f s" "vars (setcol x k s) = vars s"
  "destructed (setcol x k s) = destructed s"
  "nodes (setcol x k s) = (nodes s)(x := map_option (\<lambda>n. n\<lparr>color := k\<rparr>) (nodes s x))"
  by (simp_all add: setcol_def)

lemma put_color: "nodes s x = Some n \<Longrightarrow> put (Some x) (\<lambda>n. n\<lparr>color := k\<rparr>) s = Some (setcol x k s)"
  by (simp add: setcol_def)

lemma redden_setcol_in: "x \<in> X \<Longrightarrow> redden X (setcol x k s) = redden X s"
  by (cases "nodes s x") (auto simp: redden_def setcol_def fun_eq_iff red_node_def)

lemma redden_setcol_out: "x \<notin> X \<Longrightarrow> redden X (setcol x k s) = setcol x k (redden X s)"
  by (auto simp: redden_def setcol_def fun_eq_iff red_node_def)

lemma redden_insert: "redden (insert x X) s = setcol x RED (redden X s)"
  by (cases "nodes s x") (auto simp: redden_def setcol_def fun_eq_iff red_node_def)

lemma redden_Diff: "redden (X - {x}) (setcol x k s) = setcol x k (redden X s)"
  by (cases "nodes s x") (auto simp: redden_def setcol_def fun_eq_iff red_node_def)

lemma redden_empty [simp]: "redden {} s = s"
  by (simp add: redden_def)

lemma tree_of_setcol:
  assumes "tree_of s (plug c (Nd l x k0 d r))"
  shows "tree_of (setcol x k s) (plug c (Nd l x k d r))"
  using recolor_focus [OF assms, of k] node_focus [OF assms] by (auto simp: setcol_def)

lemma redden_alloc: "tree_of (redden X s) t \<Longrightarrow> a \<in> set (addrl t) \<Longrightarrow> \<exists>n. nodes s a = Some n"
  using rp_alloc [of "nodes (redden X s)" None t a]
  by (cases "nodes s a") (auto simp: tree_of_def)

definition unch :: "'a state \<Rightarrow> 'a state \<Rightarrow> bool" where
  "unch s s' = (size_f s' = size_f s \<and> vars s' = vars s \<and> destructed s' = destructed s
     \<and> dom (nodes s') = dom (nodes s))"

lemma unch_refl [simp]: "unch s s"
  by (simp add: unch_def)

lemma unch_trans: "unch s s1 \<Longrightarrow> unch s1 s2 \<Longrightarrow> unch s s2"
  by (simp add: unch_def)

lemma dom_redden [simp]: "dom (nodes (redden X s)) = dom (nodes s)"
  by (auto simp: dom_def red_node_def)

lemma dom_setcol [simp]: "dom (nodes (setcol x k s)) = dom (nodes s)"
  by (auto simp: dom_def)

lemma unch_redden2 [simp]: "unch s (redden X s') = unch s s'"
  by (simp add: unch_def)

lemma unch_redden1 [simp]: "unch (redden X s) s' = unch s s'"
  by (simp add: unch_def)

lemma unch_setcol [simp]: "unch s (setcol x k s') = unch s s'"
  unfolding unch_def by (simp only: setcol_fields(1-4) dom_setcol)

lemma same_tree_unch:
  assumes "same s s' (set (addrl t))" and "tree_of s t" and "tree_of s' t'"
    and "set (addrl t') = set (addrl t)"
  shows "unch s s'"
proof -
  have "(nodes s' z = None) = (nodes s z = None)" for z
  proof (cases "z \<in> set (addrl t)")
    case True
    with rp_alloc [of "nodes s" None t z] rp_alloc [of "nodes s'" None t' z] assms(2,3,4)
    show ?thesis by (auto simp: tree_of_def)
  next
    case False
    with assms(1) show ?thesis by (simp add: same_def)
  qed
  then have "dom (nodes s') = dom (nodes s)" by (auto simp: dom_def)
  with assms(1) show ?thesis by (simp add: unch_def same_def)
qed

text \<open>The primitive steps, on a store whose pending nodes count as red.\<close>

lemma focus_X:
  assumes "tree_of (redden X s) (plug c (Nd l x k d r))"
  shows "get parent s (Some x) = Some (cpar None c)" "get left s (Some x) = Some (ptr_of l)"
    "get right s (Some x) = Some (ptr_of r)" "get data s (Some x) = Some (Some d)"
    "getSide s (Some x) = Some (cside c)"
    "x \<notin> X \<Longrightarrow> get color s (Some x) = Some k"
    "\<exists>n. nodes s x = Some n"
proof -
  note n = node_focus [OF assms]
  show "get parent s (Some x) = Some (cpar None c)"
    using get_Some [OF n, of parent] by simp
  show "get left s (Some x) = Some (ptr_of l)"
    using get_Some [OF n, of left] by simp
  show "get right s (Some x) = Some (ptr_of r)"
    using get_Some [OF n, of right] by simp
  show "get data s (Some x) = Some (Some d)"
    using get_Some [OF n, of data] by simp
  show "getSide s (Some x) = Some (cside c)"
    using getSide_redden [of X s "Some x"] getSide_focus [OF assms] by simp
  show "x \<notin> X \<Longrightarrow> get color s (Some x) = Some k"
    using n by simp
  show "\<exists>n. nodes s x = Some n"
    using n by (cases "nodes s x") auto
qed

lemma isNullOrBlack_X:
  assumes "tree_of (redden X s) (plug c u)" and "\<forall>a. ptr_of u = Some a \<longrightarrow> a \<notin> X"
  shows "isNullOrBlack s (ptr_of u) = Some (col u = BLACK)"
proof (cases u)
  case Lf
  then show ?thesis by (simp add: isNullOrBlack_def)
next
  case (Nd l a k d r)
  with assms focus_X(6) [of X s c l a k d r] show ?thesis
    by (simp add: isNullOrBlack_def)
qed

lemma recolor_X:
  assumes "tree_of (redden X s) (plug c (Nd l x k d r))" and "x \<notin> X"
  shows "\<exists>s'. put (Some x) (\<lambda>n. n\<lparr>color := k'\<rparr>) s = Some s'
           \<and> tree_of (redden X s') (plug c (Nd l x k' d r)) \<and> unch s s'"
proof -
  from focus_X(7) [OF assms(1)] obtain n where n: "nodes s x = Some n" ..
  show ?thesis
    using tree_of_setcol [OF assms(1), of k'] assms(2)
    by (simp add: put_color [OF n] redden_setcol_out)
qed

lemma rotate_X_L:
  assumes "tree_of (redden X s) (plug c (Nd (Nd a x cx dx b) y cy dy r))"
  shows "\<exists>s'. rotate_rb s (Some x) (Some y) = Some s'
     \<and> tree_of (redden X s') (plug c (Nd a x cx dx (Nd b y cy dy r))) \<and> unch s s'"
proof -
  from rotate_rb_L [OF assms] obtain s1 where s1: "rotate_rb (redden X s) (Some x) (Some y) = Some s1"
    "tree_of s1 (plug c (Nd a x cx dx (Nd b y cy dy r)))"
    "same (redden X s) s1 (set (addrl (plug c (Nd (Nd a x cx dx b) y cy dy r))))" by blast
  have "unch (redden X s) s1"
    by (rule same_tree_unch [OF s1(3) assms s1(2)]) (auto simp: set_addrl_plug)
  with s1(1,2) show ?thesis by (auto simp: rotate_rb_redden)
qed

lemma rotate_X_R:
  assumes "tree_of (redden X s) (plug c (Nd l y cy dy (Nd a x cx dx b)))"
  shows "\<exists>s'. rotate_rb s (Some x) (Some y) = Some s'
     \<and> tree_of (redden X s') (plug c (Nd (Nd l y cy dy a) x cx dx b)) \<and> unch s s'"
proof -
  from rotate_rb_R [OF assms] obtain s1 where s1: "rotate_rb (redden X s) (Some x) (Some y) = Some s1"
    "tree_of s1 (plug c (Nd (Nd l y cy dy a) x cx dx b))"
    "same (redden X s) s1 (set (addrl (plug c (Nd l y cy dy (Nd a x cx dx b)))))" by blast
  have "unch (redden X s) s1"
    by (rule same_tree_unch [OF s1(3) assms s1(2)]) (auto simp: set_addrl_plug)
  with s1(1,2) show ?thesis by (auto simp: rotate_rb_redden)
qed

section \<open>The fix-up after an insertion\<close>

text \<open>The colour at the root of \<open>plug c t\<close> when \<open>t\<close> has the colour \<open>k\<close>.\<close>

fun ccol :: "'a ctx \<Rightarrow> Color \<Rightarrow> Color" where
  "ccol Top k = k"
| "ccol (InL c a ka d r) k = ccol c ka"
| "ccol (InR l a ka d c) k = ccol c ka"

text \<open>What \<open>updateColors\<close> makes of the tree \<open>plug c t\<close> when \<open>t\<close> is the subtree of the node it is
  called for, counted as red, once the caller has stored the colour it returns.\<close>

fun fixT :: "'a ctx \<Rightarrow> 'a tr \<Rightarrow> 'a tr" where
  "fixT Top t = paint BLACK t"
| "fixT (InL Top p pc pd sr) t = Nd t p pc pd sr"
| "fixT (InR sl p pc pd Top) t = Nd sl p pc pd t"
| "fixT (InL (InL c g gc gd u) p pc pd sr) t =
     (if pc = BLACK then plug c (Nd (Nd t p pc pd sr) g gc gd u)
      else if col u = BLACK then plug c (Nd t p BLACK pd (Nd sr g RED gd u))
      else fixT c (Nd (Nd t p BLACK pd sr) g RED gd (paint BLACK u)))"
| "fixT (InR sl p pc pd (InL c g gc gd u)) t =
     (if pc = BLACK then plug c (Nd (Nd sl p pc pd t) g gc gd u)
      else if col u = BLACK then
        (case t of Lf \<Rightarrow> Lf
         | Nd l x kx d r \<Rightarrow> plug c (Nd (Nd sl p RED pd l) x BLACK d (Nd r g RED gd u)))
      else fixT c (Nd (Nd sl p BLACK pd t) g RED gd (paint BLACK u)))"
| "fixT (InL (InR u g gc gd c) p pc pd sr) t =
     (if pc = BLACK then plug c (Nd u g gc gd (Nd t p pc pd sr))
      else if col u = BLACK then
        (case t of Lf \<Rightarrow> Lf
         | Nd l x kx d r \<Rightarrow> plug c (Nd (Nd u g RED gd l) x BLACK d (Nd r p RED pd sr)))
      else fixT c (Nd (paint BLACK u) g RED gd (Nd t p BLACK pd sr)))"
| "fixT (InR sl p pc pd (InR u g gc gd c)) t =
     (if pc = BLACK then plug c (Nd u g gc gd (Nd sl p pc pd t))
      else if col u = BLACK then plug c (Nd (Nd u g RED gd sl) p BLACK pd t)
      else fixT c (Nd (paint BLACK u) g RED gd (Nd sl p BLACK pd t)))"

lemma addrl_paint [simp]: "addrl (paint k t) = addrl t"
  by (cases t) auto

lemma inorder_paint [simp]: "inorder (paint k t) = inorder t"
  by (cases t) auto

lemma ptr_of_paint [simp]: "ptr_of (paint k t) = ptr_of t"
  by (cases t) auto

lemma set_addrl_fixT: "t \<noteq> Lf \<Longrightarrow> set (addrl (fixT c t)) = set (caddrl c) \<union> set (addrl t)"
  by (induction c t rule: fixT.induct) (auto simp: set_addrl_plug split: tr.splits)

lemma col_not_BLACK:
  assumes "col u \<noteq> BLACK"
  shows "\<exists>l a d r. u = Nd l a RED d r"
proof (cases u)
  case Lf
  with assms show ?thesis by simp
next
  case (Nd l a k d r)
  with assms show ?thesis by (cases k) auto
qed

lemma ccol_BLACK: "ccol c k = BLACK \<Longrightarrow> ccol c BLACK = BLACK"
  by (cases c) auto

lemma X_notin_ctx:
  assumes "tree_of (redden X s) (plug c t)" and "X \<subseteq> set (addrl t)" and "a \<in> set (caddrl c)"
  shows "a \<notin> X"
  using assms by (auto simp: tree_of_plug)

lemma setcol_RED_redden: "x \<in> X \<Longrightarrow> setcol x RED (redden X s) = redden X s"
  by (cases "nodes s x") (auto simp: redden_def setcol_def fun_eq_iff red_node_def)

lemma updateColors_parent_black:
  assumes T: "tree_of (redden X s) (plug c (Nd (Nd l x RED d r) p BLACK pd sr))
              \<or> tree_of (redden X s) (plug c (Nd sl p BLACK pd (Nd l x RED d r)))"
    and X: "x \<in> X" "p \<notin> X"
  shows "updateColors s (Some x) = Some (RED, s)"
proof -
  from T have "get parent s (Some x) = Some (Some p) \<and> get color s (Some p) = Some BLACK"
  proof
    assume a: "tree_of (redden X s) (plug c (Nd (Nd l x RED d r) p BLACK pd sr))"
    then have "tree_of (redden X s) (plug (InL c p BLACK pd sr) (Nd l x RED d r))" by simp
    from focus_X(1) [OF this] focus_X(6) [OF a X(2)] show ?thesis by simp
  next
    assume a: "tree_of (redden X s) (plug c (Nd sl p BLACK pd (Nd l x RED d r)))"
    then have "tree_of (redden X s) (plug (InR sl p BLACK pd c) (Nd l x RED d r))" by simp
    from focus_X(1) [OF this] focus_X(6) [OF a X(2)] show ?thesis by simp
  qed
  then show ?thesis by (subst updateColors.simps) simp
qed

lemma finish_RED:
  assumes "tree_of (redden X s) t" and "x \<in> X"
  shows "tree_of (redden (X - {x}) (setcol x RED s)) t"
  using assms by (simp add: redden_Diff setcol_RED_redden)

lemma bu_LL:
  assumes T: "tree_of (redden X s) (plug c (Nd (Nd (Nd l x RED d r) p pc pd sr) g gc gd u))"
    and X: "x \<in> X" "p \<notin> X" "g \<notin> X"
  shows "\<exists>s'. updateColorBlackUncle s (Some g) (Some p) (Some x) LEFT = Some (RED, s')
     \<and> tree_of (redden X s') (plug c (Nd (Nd l x RED d r) p BLACK pd (Nd sr g RED gd u)))
     \<and> unch s s'"
proof -
  from T have "tree_of (redden X s) (plug (InL (InL c g gc gd u) p pc pd sr) (Nd l x RED d r))"
    by simp
  from focus_X(5) [OF this] have side: "getSide s (Some x) = Some LEFT" by simp
  from rotate_X_L [OF T] obtain s1 where s1: "rotate_rb s (Some p) (Some g) = Some s1"
    "tree_of (redden X s1) (plug c (Nd (Nd l x RED d r) p pc pd (Nd sr g gc gd u)))" "unch s s1"
    by blast
  from recolor_X [OF s1(2) X(2), of BLACK] obtain s2 where
    s2: "put (Some p) (\<lambda>n. n\<lparr>color := BLACK\<rparr>) s1 = Some s2"
    "tree_of (redden X s2) (plug c (Nd (Nd l x RED d r) p BLACK pd (Nd sr g gc gd u)))" "unch s1 s2"
    by blast
  from s2(2) have "tree_of (redden X s2) (plug (InR (Nd l x RED d r) p BLACK pd c) (Nd sr g gc gd u))"
    by simp
  from recolor_X [OF this X(3), of RED] obtain s3 where
    s3: "put (Some g) (\<lambda>n. n\<lparr>color := RED\<rparr>) s2 = Some s3"
    "tree_of (redden X s3) (plug (InR (Nd l x RED d r) p BLACK pd c) (Nd sr g RED gd u))" "unch s2 s3"
    by blast
  have "x \<noteq> p" using X by auto
  then have "updateColorBlackUncle s (Some g) (Some p) (Some x) LEFT = Some (RED, s3)"
    by (simp add: updateColorBlackUncle_def side s1(1) s2(1) s3(1))
  with s3(2) unch_trans [OF unch_trans [OF s1(3) s2(3)] s3(3)] show ?thesis by simp
qed

lemma bu_RR:
  assumes T: "tree_of (redden X s) (plug c (Nd u g gc gd (Nd sl p pc pd (Nd l x RED d r))))"
    and X: "x \<in> X" "p \<notin> X" "g \<notin> X"
  shows "\<exists>s'. updateColorBlackUncle s (Some g) (Some p) (Some x) RIGHT = Some (RED, s')
     \<and> tree_of (redden X s') (plug c (Nd (Nd u g RED gd sl) p BLACK pd (Nd l x RED d r)))
     \<and> unch s s'"
proof -
  from T have "tree_of (redden X s) (plug (InR sl p pc pd (InR u g gc gd c)) (Nd l x RED d r))"
    by simp
  from focus_X(5) [OF this] have side: "getSide s (Some x) = Some RIGHT" by simp
  from rotate_X_R [OF T] obtain s1 where s1: "rotate_rb s (Some p) (Some g) = Some s1"
    "tree_of (redden X s1) (plug c (Nd (Nd u g gc gd sl) p pc pd (Nd l x RED d r)))" "unch s s1"
    by blast
  from recolor_X [OF s1(2) X(2), of BLACK] obtain s2 where
    s2: "put (Some p) (\<lambda>n. n\<lparr>color := BLACK\<rparr>) s1 = Some s2"
    "tree_of (redden X s2) (plug c (Nd (Nd u g gc gd sl) p BLACK pd (Nd l x RED d r)))" "unch s1 s2"
    by blast
  from s2(2) have "tree_of (redden X s2) (plug (InL c p BLACK pd (Nd l x RED d r)) (Nd u g gc gd sl))"
    by simp
  from recolor_X [OF this X(3), of RED] obtain s3 where
    s3: "put (Some g) (\<lambda>n. n\<lparr>color := RED\<rparr>) s2 = Some s3"
    "tree_of (redden X s3) (plug (InL c p BLACK pd (Nd l x RED d r)) (Nd u g RED gd sl))" "unch s2 s3"
    by blast
  have "x \<noteq> p" using X by auto
  then have "updateColorBlackUncle s (Some g) (Some p) (Some x) RIGHT = Some (RED, s3)"
    by (simp add: updateColorBlackUncle_def side s1(1) s2(1) s3(1))
  with s3(2) unch_trans [OF unch_trans [OF s1(3) s2(3)] s3(3)] show ?thesis by simp
qed

lemma put_pending:
  assumes "tree_of (redden X s) (plug c (Nd l x k d r))" and "x \<in> X"
  shows "\<exists>s'. put (Some x) (\<lambda>n. n\<lparr>color := k'\<rparr>) s = Some s' \<and> s' = setcol x k' s
     \<and> redden X s' = redden X s \<and> unch s s'"
proof -
  from focus_X(7) [OF assms(1)] obtain n where n: "nodes s x = Some n" ..
  show ?thesis using assms(2) by (simp add: put_color [OF n] redden_setcol_in)
qed

lemma bu_LR:
  assumes T: "tree_of (redden X s) (plug c (Nd (Nd sl p pc pd (Nd l x RED d r)) g gc gd u))"
    and X: "x \<in> X" "p \<notin> X" "g \<notin> X"
  shows "\<exists>s'. updateColorBlackUncle s (Some g) (Some p) (Some x) LEFT = Some (BLACK, s')
     \<and> tree_of (redden (X - {x}) (setcol x BLACK s'))
          (plug c (Nd (Nd sl p pc pd l) x BLACK d (Nd r g RED gd u)))
     \<and> unch s s'"
proof -
  from T have T0: "tree_of (redden X s) (plug (InR sl p pc pd (InL c g gc gd u)) (Nd l x RED d r))"
    and T0': "tree_of (redden X s) (plug (InL c g gc gd u) (Nd sl p pc pd (Nd l x RED d r)))"
    by simp_all
  from focus_X(5) [OF T0] have side: "getSide s (Some x) = Some RIGHT" by simp
  from rotate_X_R [OF T0'] obtain s1 where s1: "rotate_rb s (Some x) (Some p) = Some s1"
    "tree_of (redden X s1) (plug (InL c g gc gd u) (Nd (Nd sl p pc pd l) x RED d r))" "unch s s1"
    by blast
  from s1(2) have "tree_of (redden X s1) (plug c (Nd (Nd (Nd sl p pc pd l) x RED d r) g gc gd u))"
    by simp
  from rotate_X_L [OF this] obtain s2 where s2: "rotate_rb s1 (Some x) (Some g) = Some s2"
    "tree_of (redden X s2) (plug c (Nd (Nd sl p pc pd l) x RED d (Nd r g gc gd u)))" "unch s1 s2"
    by blast
  from put_pending [OF s2(2) X(1), of BLACK] obtain s3 where
    s3: "put (Some x) (\<lambda>n. n\<lparr>color := BLACK\<rparr>) s2 = Some s3" "redden X s3 = redden X s2"
    "unch s2 s3" by blast
  from s2(2) s3(2) have "tree_of (redden X s3) (plug (InR (Nd sl p pc pd l) x RED d c) (Nd r g gc gd u))"
    by simp
  from recolor_X [OF this X(3), of RED] obtain s4 where
    s4: "put (Some g) (\<lambda>n. n\<lparr>color := RED\<rparr>) s3 = Some s4"
    "tree_of (redden X s4) (plug (InR (Nd sl p pc pd l) x RED d c) (Nd r g RED gd u))" "unch s3 s4"
    by blast
  have r: "updateColorBlackUncle s (Some g) (Some p) (Some x) LEFT = Some (BLACK, s4)"
    by (simp add: updateColorBlackUncle_def side s1(1) s2(1) s3(1) s4(1))
  from s4(2) have "tree_of (redden X s4) (plug c (Nd (Nd sl p pc pd l) x RED d (Nd r g RED gd u)))"
    by simp
  from tree_of_setcol [OF this, of BLACK]
  have "tree_of (redden (X - {x}) (setcol x BLACK s4))
          (plug c (Nd (Nd sl p pc pd l) x BLACK d (Nd r g RED gd u)))"
    by (simp add: redden_Diff)
  with r unch_trans [OF unch_trans [OF unch_trans [OF s1(3) s2(3)] s3(3)] s4(3)] show ?thesis
    by simp
qed

lemma bu_RL:
  assumes T: "tree_of (redden X s) (plug c (Nd u g gc gd (Nd (Nd l x RED d r) p pc pd sr)))"
    and X: "x \<in> X" "p \<notin> X" "g \<notin> X"
  shows "\<exists>s'. updateColorBlackUncle s (Some g) (Some p) (Some x) RIGHT = Some (BLACK, s')
     \<and> tree_of (redden (X - {x}) (setcol x BLACK s'))
          (plug c (Nd (Nd u g RED gd l) x BLACK d (Nd r p pc pd sr)))
     \<and> unch s s'"
proof -
  from T have T0: "tree_of (redden X s) (plug (InL (InR u g gc gd c) p pc pd sr) (Nd l x RED d r))"
    and T0': "tree_of (redden X s) (plug (InR u g gc gd c) (Nd (Nd l x RED d r) p pc pd sr))"
    by simp_all
  from focus_X(5) [OF T0] have side: "getSide s (Some x) = Some LEFT" by simp
  from rotate_X_L [OF T0'] obtain s1 where s1: "rotate_rb s (Some x) (Some p) = Some s1"
    "tree_of (redden X s1) (plug (InR u g gc gd c) (Nd l x RED d (Nd r p pc pd sr)))" "unch s s1"
    by blast
  from s1(2) have "tree_of (redden X s1) (plug c (Nd u g gc gd (Nd l x RED d (Nd r p pc pd sr))))"
    by simp
  from rotate_X_R [OF this] obtain s2 where s2: "rotate_rb s1 (Some x) (Some g) = Some s2"
    "tree_of (redden X s2) (plug c (Nd (Nd u g gc gd l) x RED d (Nd r p pc pd sr)))" "unch s1 s2"
    by blast
  from put_pending [OF s2(2) X(1), of BLACK] obtain s3 where
    s3: "put (Some x) (\<lambda>n. n\<lparr>color := BLACK\<rparr>) s2 = Some s3" "redden X s3 = redden X s2"
    "unch s2 s3" by blast
  from s2(2) s3(2) have "tree_of (redden X s3) (plug (InL c x RED d (Nd r p pc pd sr)) (Nd u g gc gd l))"
    by simp
  from recolor_X [OF this X(3), of RED] obtain s4 where
    s4: "put (Some g) (\<lambda>n. n\<lparr>color := RED\<rparr>) s3 = Some s4"
    "tree_of (redden X s4) (plug (InL c x RED d (Nd r p pc pd sr)) (Nd u g RED gd l))" "unch s3 s4"
    by blast
  have r: "updateColorBlackUncle s (Some g) (Some p) (Some x) RIGHT = Some (BLACK, s4)"
    by (simp add: updateColorBlackUncle_def side s1(1) s2(1) s3(1) s4(1))
  from s4(2) have "tree_of (redden X s4) (plug c (Nd (Nd u g RED gd l) x RED d (Nd r p pc pd sr)))"
    by simp
  from tree_of_setcol [OF this, of BLACK]
  have "tree_of (redden (X - {x}) (setcol x BLACK s4))
          (plug c (Nd (Nd u g RED gd l) x BLACK d (Nd r p pc pd sr)))"
    by (simp add: redden_Diff)
  with r unch_trans [OF unch_trans [OF unch_trans [OF s1(3) s2(3)] s3(3)] s4(3)] show ?thesis
    by simp
qed

lemma updateColors_red_parent:
  assumes "get parent s (Some x) = Some (Some p)" and "get color s (Some p) = Some RED"
    and "get parent s (Some p) = Some gp" and "getSide s (Some p) = Some side"
    and "(if side = LEFT then get right s gp else get left s gp) = Some uncle"
    and "isNullOrBlack s uncle = Some ub"
  shows "updateColors s (Some x) =
     (if ub then updateColorBlackUncle s gp (Some p) (Some x) side
      else do {
        s1 \<leftarrow> put (Some p) (\<lambda>n. n\<lparr>color := BLACK\<rparr>) s;
        s2 \<leftarrow> put uncle (\<lambda>n. n\<lparr>color := BLACK\<rparr>) s1;
        res \<leftarrow> updateColors s2 gp;
        s4 \<leftarrow> put gp (\<lambda>n. n\<lparr>color := fst res\<rparr>) (snd res);
        Some (RED, s4)
      })"
  using assms(5) by (subst updateColors.simps) (simp add: assms(1,2,3,4,6))

lemma ru_step_L:
  assumes T: "tree_of (redden X s) (plug c (Nd (Nd pl p RED pd pr) g gc gd (Nd ul u0 RED ud ur)))"
    and X: "p \<notin> X" "u0 \<notin> X" "g \<notin> X"
  shows "\<exists>s2. (put (Some p) (\<lambda>n. n\<lparr>color := BLACK\<rparr>) s \<bind> put (Some u0) (\<lambda>n. n\<lparr>color := BLACK\<rparr>)) = Some s2
     \<and> tree_of (redden (insert g X) s2)
          (plug c (Nd (Nd pl p BLACK pd pr) g RED gd (Nd ul u0 BLACK ud ur)))
     \<and> unch s s2"
proof -
  from T have "tree_of (redden X s) (plug (InL c g gc gd (Nd ul u0 RED ud ur)) (Nd pl p RED pd pr))"
    by simp
  from recolor_X [OF this X(1), of BLACK] obtain s1 where
    s1: "put (Some p) (\<lambda>n. n\<lparr>color := BLACK\<rparr>) s = Some s1"
    "tree_of (redden X s1) (plug (InL c g gc gd (Nd ul u0 RED ud ur)) (Nd pl p BLACK pd pr))" "unch s s1"
    by blast
  from s1(2) have "tree_of (redden X s1) (plug (InR (Nd pl p BLACK pd pr) g gc gd c) (Nd ul u0 RED ud ur))"
    by simp
  from recolor_X [OF this X(2), of BLACK] obtain s2 where
    s2: "put (Some u0) (\<lambda>n. n\<lparr>color := BLACK\<rparr>) s1 = Some s2"
    "tree_of (redden X s2) (plug (InR (Nd pl p BLACK pd pr) g gc gd c) (Nd ul u0 BLACK ud ur))" "unch s1 s2"
    by blast
  from s2(2) have "tree_of (redden X s2) (plug c (Nd (Nd pl p BLACK pd pr) g gc gd (Nd ul u0 BLACK ud ur)))"
    by simp
  from tree_of_setcol [OF this, of RED]
  have "tree_of (redden (insert g X) s2) (plug c (Nd (Nd pl p BLACK pd pr) g RED gd (Nd ul u0 BLACK ud ur)))"
    by (simp add: redden_insert)
  with s1(1) s2(1) unch_trans [OF s1(3) s2(3)] show ?thesis by simp
qed

lemma ru_step_R:
  assumes T: "tree_of (redden X s) (plug c (Nd (Nd ul u0 RED ud ur) g gc gd (Nd pl p RED pd pr)))"
    and X: "p \<notin> X" "u0 \<notin> X" "g \<notin> X"
  shows "\<exists>s2. (put (Some p) (\<lambda>n. n\<lparr>color := BLACK\<rparr>) s \<bind> put (Some u0) (\<lambda>n. n\<lparr>color := BLACK\<rparr>)) = Some s2
     \<and> tree_of (redden (insert g X) s2)
          (plug c (Nd (Nd ul u0 BLACK ud ur) g RED gd (Nd pl p BLACK pd pr)))
     \<and> unch s s2"
proof -
  from T have "tree_of (redden X s) (plug (InR (Nd ul u0 RED ud ur) g gc gd c) (Nd pl p RED pd pr))"
    by simp
  from recolor_X [OF this X(1), of BLACK] obtain s1 where
    s1: "put (Some p) (\<lambda>n. n\<lparr>color := BLACK\<rparr>) s = Some s1"
    "tree_of (redden X s1) (plug (InR (Nd ul u0 RED ud ur) g gc gd c) (Nd pl p BLACK pd pr))" "unch s s1"
    by blast
  from s1(2) have "tree_of (redden X s1) (plug (InL c g gc gd (Nd pl p BLACK pd pr)) (Nd ul u0 RED ud ur))"
    by simp
  from recolor_X [OF this X(2), of BLACK] obtain s2 where
    s2: "put (Some u0) (\<lambda>n. n\<lparr>color := BLACK\<rparr>) s1 = Some s2"
    "tree_of (redden X s2) (plug (InL c g gc gd (Nd pl p BLACK pd pr)) (Nd ul u0 BLACK ud ur))" "unch s1 s2"
    by blast
  from s2(2) have "tree_of (redden X s2) (plug c (Nd (Nd ul u0 BLACK ud ur) g gc gd (Nd pl p BLACK pd pr)))"
    by simp
  from tree_of_setcol [OF this, of RED]
  have "tree_of (redden (insert g X) s2) (plug c (Nd (Nd ul u0 BLACK ud ur) g RED gd (Nd pl p BLACK pd pr)))"
    by (simp add: redden_insert)
  with s1(1) s2(1) unch_trans [OF s1(3) s2(3)] show ?thesis by simp
qed

lemma after_rec:
  assumes "tree_of (redden X (setcol g cg s3)) T" and "g \<in> set (addrl T)" and "x \<in> X"
  shows "\<exists>s4. put (Some g) (\<lambda>n. n\<lparr>color := cg\<rparr>) s3 = Some s4
     \<and> tree_of (redden (X - {x}) (setcol x RED s4)) T \<and> unch s3 s4"
proof -
  from redden_alloc [OF assms(1,2)] obtain n where "nodes s3 g = Some n"
    by (cases "nodes s3 g") auto
  from put_color [OF this, of cg] finish_RED [OF assms(1,3)] show ?thesis by simp
qed

text \<open>A red parent is not the root when the root is black.\<close>

lemma updateColors_spec:
  "tree_of (redden X s) (plug c t) \<Longrightarrow> t = Nd l x RED d r \<Longrightarrow> x \<in> X \<Longrightarrow> X \<subseteq> set (addrl t)
   \<Longrightarrow> ccol c BLACK = BLACK
   \<Longrightarrow> \<exists>k s'. updateColors s (Some x) = Some (k, s')
         \<and> tree_of (redden (X - {x}) (setcol x k s')) (fixT c t) \<and> unch s s'"
proof (induction c t arbitrary: s X l x d r rule: fixT.induct)
  case (1 t)
  from focus_X(1) [OF "1.prems"(1) [unfolded "1.prems"(2)]]
  have "updateColors s (Some x) = Some (BLACK, s)"
    by (subst updateColors.simps) simp
  moreover from tree_of_setcol [OF "1.prems"(1) [unfolded "1.prems"(2)], of BLACK]
  have "tree_of (redden (X - {x}) (setcol x BLACK s)) (fixT Top t)"
    by (simp add: redden_Diff "1.prems"(2))
  ultimately show ?case by auto
next
  case (2 p pc pd sr t)
  from "2.prems" have pc: "pc = BLACK" by simp
  have p: "p \<notin> X" using X_notin_ctx [OF "2.prems"(1,4)] by simp
  from "2.prems"(1,2) have "tree_of (redden X s) (plug Top (Nd (Nd l x RED d r) p BLACK pd sr))"
    by (simp add: pc)
  with updateColors_parent_black [of X s Top l x d r p pd sr, OF _ "2.prems"(3) p]
  have "updateColors s (Some x) = Some (RED, s)" by blast
  with finish_RED [OF "2.prems"(1,3)] show ?case by auto
next
  case (3 sl p pc pd t)
  from "3.prems" have pc: "pc = BLACK" by simp
  have p: "p \<notin> X" using X_notin_ctx [OF "3.prems"(1,4)] by simp
  from "3.prems"(1,2) have "tree_of (redden X s) (plug Top (Nd sl p BLACK pd (Nd l x RED d r)))"
    by (simp add: pc)
  with updateColors_parent_black [of X s Top l x d r p pd _ sl, OF _ "3.prems"(3) p]
  have "updateColors s (Some x) = Some (RED, s)" by blast
  with finish_RED [OF "3.prems"(1,3)] show ?case by auto
next
  case (4 c g gc gd u p pc pd sr t)
  note T = "4.prems"(1) and t = "4.prems"(2) and xX = "4.prems"(3) and Xt = "4.prems"(4)
  have nX: "p \<notin> X" "g \<notin> X" "\<forall>a. ptr_of u = Some a \<longrightarrow> a \<notin> X"
    using X_notin_ctx [OF T Xt] by (auto dest: ptr_of_in)
  show ?case
  proof (cases "pc = BLACK")
    case True
    from T t True have "tree_of (redden X s) (plug (InL c g gc gd u) (Nd (Nd l x RED d r) p BLACK pd sr))"
      by simp
    with updateColors_parent_black [of X s "InL c g gc gd u" l x d r p pd sr, OF _ xX nX(1)]
    have "updateColors s (Some x) = Some (RED, s)" by blast
    with finish_RED [OF T xX] True show ?thesis by auto
  next
    case False
    then have pc: "pc = RED" by (cases pc) auto
    from T t have Tp: "tree_of (redden X s) (plug (InL c g gc gd u) (Nd (Nd l x RED d r) p pc pd sr))"
      and Tg: "tree_of (redden X s) (plug c (Nd (Nd (Nd l x RED d r) p pc pd sr) g gc gd u))"
      and Tu: "tree_of (redden X s) (plug (InR (Nd (Nd l x RED d r) p pc pd sr) g gc gd c) u)"
      by simp_all
    have un: "updateColors s (Some x) =
      (if col u = BLACK then updateColorBlackUncle s (Some g) (Some p) (Some x) LEFT
       else do {
         s1 \<leftarrow> put (Some p) (\<lambda>n. n\<lparr>color := BLACK\<rparr>) s;
         s2 \<leftarrow> put (ptr_of u) (\<lambda>n. n\<lparr>color := BLACK\<rparr>) s1;
         res \<leftarrow> updateColors s2 (Some g);
         s4 \<leftarrow> put (Some g) (\<lambda>n. n\<lparr>color := fst res\<rparr>) (snd res);
         Some (RED, s4)
       })"
      using focus_X(1) [OF T [unfolded t]] focus_X(6) [OF Tp nX(1)] focus_X(1) [OF Tp]
        focus_X(5) [OF Tp] focus_X(3) [OF Tg] isNullOrBlack_X [OF Tu nX(3)]
      by (intro updateColors_red_parent) (simp_all add: pc)
    show ?thesis
    proof (cases "col u = BLACK")
      case True
      from bu_LL [OF Tg xX nX(1,2)] obtain s' where
        "updateColorBlackUncle s (Some g) (Some p) (Some x) LEFT = Some (RED, s')"
        "tree_of (redden X s') (plug c (Nd (Nd l x RED d r) p BLACK pd (Nd sr g RED gd u)))"
        "unch s s'" by blast
      with finish_RED [OF this(2) xX] un True pc t show ?thesis by auto
    next
      case cu: False
      from col_not_BLACK [OF this] obtain ul u0 ud ur where u: "u = Nd ul u0 RED ud ur"
        by blast
      from nX(3) u have u0: "u0 \<notin> X" by simp
      from ru_step_L [OF Tg [unfolded u pc] nX(1) u0 nX(2)] obtain s2 where
        s2: "(put (Some p) (\<lambda>n. n\<lparr>color := BLACK\<rparr>) s \<bind> put (Some u0) (\<lambda>n. n\<lparr>color := BLACK\<rparr>)) = Some s2"
        "tree_of (redden (insert g X) s2)
           (plug c (Nd (Nd (Nd l x RED d r) p BLACK pd sr) g RED gd (Nd ul u0 BLACK ud ur)))"
        "unch s s2" by blast
      have i1: "tree_of (redden (insert g X) s2)
            (plug c (Nd (Nd t p BLACK pd sr) g RED gd (paint BLACK u)))"
        using s2(2) by (simp add: t u)
      have i4: "insert g X \<subseteq> set (addrl (Nd (Nd t p BLACK pd sr) g RED gd (paint BLACK u)))"
        using Xt by auto
      have i5: "ccol c BLACK = BLACK"
        using "4.prems"(5) by (auto intro: ccol_BLACK)
      from "4.IH" [OF False cu, where X = "insert g X" and s = s2 and l = "Nd t p BLACK pd sr"
          and x = g and d = gd and r = "paint BLACK u", OF i1 refl _ i4 i5]
      obtain cg s3 where s3: "updateColors s2 (Some g) = Some (cg, s3)"
        "tree_of (redden (insert g X - {g}) (setcol g cg s3))
           (fixT c (Nd (Nd t p BLACK pd sr) g RED gd (paint BLACK u)))" "unch s2 s3"
        by auto
      have "insert g X - {g} = X" using nX(2) by auto
      with s3(2) have T3: "tree_of (redden X (setcol g cg s3))
           (fixT c (Nd (Nd t p BLACK pd sr) g RED gd (paint BLACK u)))" by simp
      have "g \<in> set (addrl (fixT c (Nd (Nd t p BLACK pd sr) g RED gd (paint BLACK u))))"
        by (simp add: set_addrl_fixT)
      from after_rec [OF T3 this xX] obtain s4 where
        s4: "put (Some g) (\<lambda>n. n\<lparr>color := cg\<rparr>) s3 = Some s4"
        "tree_of (redden (X - {x}) (setcol x RED s4))
           (fixT c (Nd (Nd t p BLACK pd sr) g RED gd (paint BLACK u)))" "unch s3 s4"
        by blast
      from s2(1) obtain s1 where s1: "put (Some p) (\<lambda>n. n\<lparr>color := BLACK\<rparr>) s = Some s1"
        "put (Some u0) (\<lambda>n. n\<lparr>color := BLACK\<rparr>) s1 = Some s2"
        by (auto simp: bind_eq_Some_conv)
      have "updateColors s (Some x) = Some (RED, s4)"
        using cu by (simp add: un u s1 s3(1) s4(1))
      with s4(2) unch_trans [OF unch_trans [OF s2(3) s3(3)] s4(3)] pc cu show ?thesis by auto
    qed
  qed
next
  case (5 sl p pc pd c g gc gd u t)
  note T = "5.prems"(1) and t = "5.prems"(2) and xX = "5.prems"(3) and Xt = "5.prems"(4)
  have nX: "p \<notin> X" "g \<notin> X" "\<forall>a. ptr_of u = Some a \<longrightarrow> a \<notin> X"
    using X_notin_ctx [OF T Xt] by (auto dest: ptr_of_in)
  show ?case
  proof (cases "pc = BLACK")
    case True
    from T t True have "tree_of (redden X s) (plug (InL c g gc gd u) (Nd sl p BLACK pd (Nd l x RED d r)))"
      by simp
    with updateColors_parent_black [of X s "InL c g gc gd u" l x d r p pd _ sl, OF _ xX nX(1)]
    have "updateColors s (Some x) = Some (RED, s)" by blast
    with finish_RED [OF T xX] True show ?thesis by auto
  next
    case False
    then have pc: "pc = RED" by (cases pc) auto
    from T t have Tp: "tree_of (redden X s) (plug (InL c g gc gd u) (Nd sl p pc pd (Nd l x RED d r)))"
      and Tg: "tree_of (redden X s) (plug c (Nd (Nd sl p pc pd (Nd l x RED d r)) g gc gd u))"
      and Tu: "tree_of (redden X s) (plug (InR (Nd sl p pc pd (Nd l x RED d r)) g gc gd c) u)"
      by simp_all
    have un: "updateColors s (Some x) =
      (if col u = BLACK then updateColorBlackUncle s (Some g) (Some p) (Some x) LEFT
       else do {
         s1 \<leftarrow> put (Some p) (\<lambda>n. n\<lparr>color := BLACK\<rparr>) s;
         s2 \<leftarrow> put (ptr_of u) (\<lambda>n. n\<lparr>color := BLACK\<rparr>) s1;
         res \<leftarrow> updateColors s2 (Some g);
         s4 \<leftarrow> put (Some g) (\<lambda>n. n\<lparr>color := fst res\<rparr>) (snd res);
         Some (RED, s4)
       })"
      using focus_X(1) [OF T [unfolded t]] focus_X(6) [OF Tp nX(1)] focus_X(1) [OF Tp]
        focus_X(5) [OF Tp] focus_X(3) [OF Tg] isNullOrBlack_X [OF Tu nX(3)]
      by (intro updateColors_red_parent) (simp_all add: pc)
    show ?thesis
    proof (cases "col u = BLACK")
      case True
      from bu_LR [OF Tg xX nX(1,2)] obtain s' where
        "updateColorBlackUncle s (Some g) (Some p) (Some x) LEFT = Some (BLACK, s')"
        "tree_of (redden (X - {x}) (setcol x BLACK s')) (plug c (Nd (Nd sl p pc pd l) x BLACK d (Nd r g RED gd u)))"
        "unch s s'" by blast
      with un True pc t show ?thesis by auto
    next
      case cu: False
      from col_not_BLACK [OF this] obtain ul u0 ud ur where u: "u = Nd ul u0 RED ud ur"
        by blast
      from nX(3) u have u0: "u0 \<notin> X" by simp
      from ru_step_L [OF Tg [unfolded u pc] nX(1) u0 nX(2)] obtain s2 where
        s2: "(put (Some p) (\<lambda>n. n\<lparr>color := BLACK\<rparr>) s \<bind> put (Some u0) (\<lambda>n. n\<lparr>color := BLACK\<rparr>)) = Some s2"
        "tree_of (redden (insert g X) s2)
           (plug c (Nd (Nd sl p BLACK pd (Nd l x RED d r)) g RED gd (Nd ul u0 BLACK ud ur)))"
        "unch s s2" by blast
      have i1: "tree_of (redden (insert g X) s2)
            (plug c (Nd (Nd sl p BLACK pd t) g RED gd (paint BLACK u)))"
        using s2(2) by (simp add: t u)
      have i4: "insert g X \<subseteq> set (addrl (Nd (Nd sl p BLACK pd t) g RED gd (paint BLACK u)))"
        using Xt by auto
      have i5: "ccol c BLACK = BLACK"
        using "5.prems"(5) by (auto intro: ccol_BLACK)
      from "5.IH" [OF False cu, where X = "insert g X" and s = s2 and l = "Nd sl p BLACK pd t"
          and x = g and d = gd and r = "paint BLACK u", OF i1 refl _ i4 i5]
      obtain cg s3 where s3: "updateColors s2 (Some g) = Some (cg, s3)"
        "tree_of (redden (insert g X - {g}) (setcol g cg s3))
           (fixT c (Nd (Nd sl p BLACK pd t) g RED gd (paint BLACK u)))" "unch s2 s3"
        by auto
      have "insert g X - {g} = X" using nX(2) by auto
      with s3(2) have T3: "tree_of (redden X (setcol g cg s3))
           (fixT c (Nd (Nd sl p BLACK pd t) g RED gd (paint BLACK u)))" by simp
      have "g \<in> set (addrl (fixT c (Nd (Nd sl p BLACK pd t) g RED gd (paint BLACK u))))"
        by (simp add: set_addrl_fixT)
      from after_rec [OF T3 this xX] obtain s4 where
        s4: "put (Some g) (\<lambda>n. n\<lparr>color := cg\<rparr>) s3 = Some s4"
        "tree_of (redden (X - {x}) (setcol x RED s4))
           (fixT c (Nd (Nd sl p BLACK pd t) g RED gd (paint BLACK u)))" "unch s3 s4"
        by blast
      from s2(1) obtain s1 where s1: "put (Some p) (\<lambda>n. n\<lparr>color := BLACK\<rparr>) s = Some s1"
        "put (Some u0) (\<lambda>n. n\<lparr>color := BLACK\<rparr>) s1 = Some s2"
        by (auto simp: bind_eq_Some_conv)
      have "updateColors s (Some x) = Some (RED, s4)"
        using cu by (simp add: un u s1 s3(1) s4(1))
      with s4(2) unch_trans [OF unch_trans [OF s2(3) s3(3)] s4(3)] pc cu show ?thesis by auto
    qed
  qed
next
  case (6 u g gc gd c p pc pd sr t)
  note T = "6.prems"(1) and t = "6.prems"(2) and xX = "6.prems"(3) and Xt = "6.prems"(4)
  have nX: "p \<notin> X" "g \<notin> X" "\<forall>a. ptr_of u = Some a \<longrightarrow> a \<notin> X"
    using X_notin_ctx [OF T Xt] by (auto dest: ptr_of_in)
  show ?case
  proof (cases "pc = BLACK")
    case True
    from T t True have "tree_of (redden X s) (plug (InR u g gc gd c) (Nd (Nd l x RED d r) p BLACK pd sr))"
      by simp
    with updateColors_parent_black [of X s "InR u g gc gd c" l x d r p pd sr, OF _ xX nX(1)]
    have "updateColors s (Some x) = Some (RED, s)" by blast
    with finish_RED [OF T xX] True show ?thesis by auto
  next
    case False
    then have pc: "pc = RED" by (cases pc) auto
    from T t have Tp: "tree_of (redden X s) (plug (InR u g gc gd c) (Nd (Nd l x RED d r) p pc pd sr))"
      and Tg: "tree_of (redden X s) (plug c (Nd u g gc gd (Nd (Nd l x RED d r) p pc pd sr)))"
      and Tu: "tree_of (redden X s) (plug (InL c g gc gd (Nd (Nd l x RED d r) p pc pd sr)) u)"
      by simp_all
    have un: "updateColors s (Some x) =
      (if col u = BLACK then updateColorBlackUncle s (Some g) (Some p) (Some x) RIGHT
       else do {
         s1 \<leftarrow> put (Some p) (\<lambda>n. n\<lparr>color := BLACK\<rparr>) s;
         s2 \<leftarrow> put (ptr_of u) (\<lambda>n. n\<lparr>color := BLACK\<rparr>) s1;
         res \<leftarrow> updateColors s2 (Some g);
         s4 \<leftarrow> put (Some g) (\<lambda>n. n\<lparr>color := fst res\<rparr>) (snd res);
         Some (RED, s4)
       })"
      using focus_X(1) [OF T [unfolded t]] focus_X(6) [OF Tp nX(1)] focus_X(1) [OF Tp]
        focus_X(5) [OF Tp] focus_X(2) [OF Tg] isNullOrBlack_X [OF Tu nX(3)]
      by (intro updateColors_red_parent) (simp_all add: pc)
    show ?thesis
    proof (cases "col u = BLACK")
      case True
      from bu_RL [OF Tg xX nX(1,2)] obtain s' where
        "updateColorBlackUncle s (Some g) (Some p) (Some x) RIGHT = Some (BLACK, s')"
        "tree_of (redden (X - {x}) (setcol x BLACK s')) (plug c (Nd (Nd u g RED gd l) x BLACK d (Nd r p pc pd sr)))"
        "unch s s'" by blast
      with un True pc t show ?thesis by auto
    next
      case cu: False
      from col_not_BLACK [OF this] obtain ul u0 ud ur where u: "u = Nd ul u0 RED ud ur"
        by blast
      from nX(3) u have u0: "u0 \<notin> X" by simp
      from ru_step_R [OF Tg [unfolded u pc] nX(1) u0 nX(2)] obtain s2 where
        s2: "(put (Some p) (\<lambda>n. n\<lparr>color := BLACK\<rparr>) s \<bind> put (Some u0) (\<lambda>n. n\<lparr>color := BLACK\<rparr>)) = Some s2"
        "tree_of (redden (insert g X) s2)
           (plug c (Nd (Nd ul u0 BLACK ud ur) g RED gd (Nd (Nd l x RED d r) p BLACK pd sr)))"
        "unch s s2" by blast
      have i1: "tree_of (redden (insert g X) s2)
            (plug c (Nd (paint BLACK u) g RED gd (Nd t p BLACK pd sr)))"
        using s2(2) by (simp add: t u)
      have i4: "insert g X \<subseteq> set (addrl (Nd (paint BLACK u) g RED gd (Nd t p BLACK pd sr)))"
        using Xt by auto
      have i5: "ccol c BLACK = BLACK"
        using "6.prems"(5) by (auto intro: ccol_BLACK)
      from "6.IH" [OF False cu, where X = "insert g X" and s = s2 and l = "paint BLACK u"
          and x = g and d = gd and r = "Nd t p BLACK pd sr", OF i1 refl _ i4 i5]
      obtain cg s3 where s3: "updateColors s2 (Some g) = Some (cg, s3)"
        "tree_of (redden (insert g X - {g}) (setcol g cg s3))
           (fixT c (Nd (paint BLACK u) g RED gd (Nd t p BLACK pd sr)))" "unch s2 s3"
        by auto
      have "insert g X - {g} = X" using nX(2) by auto
      with s3(2) have T3: "tree_of (redden X (setcol g cg s3))
           (fixT c (Nd (paint BLACK u) g RED gd (Nd t p BLACK pd sr)))" by simp
      have "g \<in> set (addrl (fixT c (Nd (paint BLACK u) g RED gd (Nd t p BLACK pd sr))))"
        by (simp add: set_addrl_fixT)
      from after_rec [OF T3 this xX] obtain s4 where
        s4: "put (Some g) (\<lambda>n. n\<lparr>color := cg\<rparr>) s3 = Some s4"
        "tree_of (redden (X - {x}) (setcol x RED s4))
           (fixT c (Nd (paint BLACK u) g RED gd (Nd t p BLACK pd sr)))" "unch s3 s4"
        by blast
      from s2(1) obtain s1 where s1: "put (Some p) (\<lambda>n. n\<lparr>color := BLACK\<rparr>) s = Some s1"
        "put (Some u0) (\<lambda>n. n\<lparr>color := BLACK\<rparr>) s1 = Some s2"
        by (auto simp: bind_eq_Some_conv)
      have "updateColors s (Some x) = Some (RED, s4)"
        using cu by (simp add: un u s1 s3(1) s4(1))
      with s4(2) unch_trans [OF unch_trans [OF s2(3) s3(3)] s4(3)] pc cu show ?thesis by auto
    qed
  qed
next
  case (7 sl p pc pd u g gc gd c t)
  note T = "7.prems"(1) and t = "7.prems"(2) and xX = "7.prems"(3) and Xt = "7.prems"(4)
  have nX: "p \<notin> X" "g \<notin> X" "\<forall>a. ptr_of u = Some a \<longrightarrow> a \<notin> X"
    using X_notin_ctx [OF T Xt] by (auto dest: ptr_of_in)
  show ?case
  proof (cases "pc = BLACK")
    case True
    from T t True have "tree_of (redden X s) (plug (InR u g gc gd c) (Nd sl p BLACK pd (Nd l x RED d r)))"
      by simp
    with updateColors_parent_black [of X s "InR u g gc gd c" l x d r p pd _ sl, OF _ xX nX(1)]
    have "updateColors s (Some x) = Some (RED, s)" by blast
    with finish_RED [OF T xX] True show ?thesis by auto
  next
    case False
    then have pc: "pc = RED" by (cases pc) auto
    from T t have Tp: "tree_of (redden X s) (plug (InR u g gc gd c) (Nd sl p pc pd (Nd l x RED d r)))"
      and Tg: "tree_of (redden X s) (plug c (Nd u g gc gd (Nd sl p pc pd (Nd l x RED d r))))"
      and Tu: "tree_of (redden X s) (plug (InL c g gc gd (Nd sl p pc pd (Nd l x RED d r))) u)"
      by simp_all
    have un: "updateColors s (Some x) =
      (if col u = BLACK then updateColorBlackUncle s (Some g) (Some p) (Some x) RIGHT
       else do {
         s1 \<leftarrow> put (Some p) (\<lambda>n. n\<lparr>color := BLACK\<rparr>) s;
         s2 \<leftarrow> put (ptr_of u) (\<lambda>n. n\<lparr>color := BLACK\<rparr>) s1;
         res \<leftarrow> updateColors s2 (Some g);
         s4 \<leftarrow> put (Some g) (\<lambda>n. n\<lparr>color := fst res\<rparr>) (snd res);
         Some (RED, s4)
       })"
      using focus_X(1) [OF T [unfolded t]] focus_X(6) [OF Tp nX(1)] focus_X(1) [OF Tp]
        focus_X(5) [OF Tp] focus_X(2) [OF Tg] isNullOrBlack_X [OF Tu nX(3)]
      by (intro updateColors_red_parent) (simp_all add: pc)
    show ?thesis
    proof (cases "col u = BLACK")
      case True
      from bu_RR [OF Tg xX nX(1,2)] obtain s' where
        "updateColorBlackUncle s (Some g) (Some p) (Some x) RIGHT = Some (RED, s')"
        "tree_of (redden X s') (plug c (Nd (Nd u g RED gd sl) p BLACK pd (Nd l x RED d r)))"
        "unch s s'" by blast
      with finish_RED [OF this(2) xX] un True pc t show ?thesis by auto
    next
      case cu: False
      from col_not_BLACK [OF this] obtain ul u0 ud ur where u: "u = Nd ul u0 RED ud ur"
        by blast
      from nX(3) u have u0: "u0 \<notin> X" by simp
      from ru_step_R [OF Tg [unfolded u pc] nX(1) u0 nX(2)] obtain s2 where
        s2: "(put (Some p) (\<lambda>n. n\<lparr>color := BLACK\<rparr>) s \<bind> put (Some u0) (\<lambda>n. n\<lparr>color := BLACK\<rparr>)) = Some s2"
        "tree_of (redden (insert g X) s2)
           (plug c (Nd (Nd ul u0 BLACK ud ur) g RED gd (Nd sl p BLACK pd (Nd l x RED d r))))"
        "unch s s2" by blast
      have i1: "tree_of (redden (insert g X) s2)
            (plug c (Nd (paint BLACK u) g RED gd (Nd sl p BLACK pd t)))"
        using s2(2) by (simp add: t u)
      have i4: "insert g X \<subseteq> set (addrl (Nd (paint BLACK u) g RED gd (Nd sl p BLACK pd t)))"
        using Xt by auto
      have i5: "ccol c BLACK = BLACK"
        using "7.prems"(5) by (auto intro: ccol_BLACK)
      from "7.IH" [OF False cu, where X = "insert g X" and s = s2 and l = "paint BLACK u"
          and x = g and d = gd and r = "Nd sl p BLACK pd t", OF i1 refl _ i4 i5]
      obtain cg s3 where s3: "updateColors s2 (Some g) = Some (cg, s3)"
        "tree_of (redden (insert g X - {g}) (setcol g cg s3))
           (fixT c (Nd (paint BLACK u) g RED gd (Nd sl p BLACK pd t)))" "unch s2 s3"
        by auto
      have "insert g X - {g} = X" using nX(2) by auto
      with s3(2) have T3: "tree_of (redden X (setcol g cg s3))
           (fixT c (Nd (paint BLACK u) g RED gd (Nd sl p BLACK pd t)))" by simp
      have "g \<in> set (addrl (fixT c (Nd (paint BLACK u) g RED gd (Nd sl p BLACK pd t))))"
        by (simp add: set_addrl_fixT)
      from after_rec [OF T3 this xX] obtain s4 where
        s4: "put (Some g) (\<lambda>n. n\<lparr>color := cg\<rparr>) s3 = Some s4"
        "tree_of (redden (X - {x}) (setcol x RED s4))
           (fixT c (Nd (paint BLACK u) g RED gd (Nd sl p BLACK pd t)))" "unch s3 s4"
        by blast
      from s2(1) obtain s1 where s1: "put (Some p) (\<lambda>n. n\<lparr>color := BLACK\<rparr>) s = Some s1"
        "put (Some u0) (\<lambda>n. n\<lparr>color := BLACK\<rparr>) s1 = Some s2"
        by (auto simp: bind_eq_Some_conv)
      have "updateColors s (Some x) = Some (RED, s4)"
        using cu by (simp add: un u s1 s3(1) s4(1))
      with s4(2) unch_trans [OF unch_trans [OF s2(3) s3(3)] s4(3)] pc cu show ?thesis by auto
    qed
  qed
qed

section \<open>The red-black invariants\<close>

fun bh :: "'a tr \<Rightarrow> nat" where
  "bh Lf = 0"
| "bh (Nd l a k d r) = bh l + (if k = BLACK then 1 else 0)"

fun invh :: "'a tr \<Rightarrow> bool" where
  "invh Lf = True"
| "invh (Nd l a k d r) = (invh l \<and> invh r \<and> bh l = bh r)"

fun invc :: "'a tr \<Rightarrow> bool" where
  "invc Lf = True"
| "invc (Nd l a k d r) = (invc l \<and> invc r \<and> (k = RED \<longrightarrow> col l = BLACK \<and> col r = BLACK))"

definition rbt :: "'a tr \<Rightarrow> bool" where
  "rbt t = (col t = BLACK \<and> invc t \<and> invh t)"

text \<open>The invariants of a context: \<open>cinvh c n\<close> when a subtree of black height \<open>n\<close> fits the
  hole, \<open>cinvc c k\<close> when a subtree with a root of colour \<open>k\<close> does.\<close>

fun cinvh :: "'a ctx \<Rightarrow> nat \<Rightarrow> bool" where
  "cinvh Top n = True"
| "cinvh (InL c a k d r) n = (invh r \<and> n = bh r \<and> cinvh c (n + (if k = BLACK then 1 else 0)))"
| "cinvh (InR l a k d c) n = (invh l \<and> bh l = n \<and> cinvh c (n + (if k = BLACK then 1 else 0)))"

fun cinvc :: "'a ctx \<Rightarrow> Color \<Rightarrow> bool" where
  "cinvc Top kh = True"
| "cinvc (InL c a k d r) kh = (invc r \<and> (k = RED \<longrightarrow> kh = BLACK \<and> col r = BLACK) \<and> cinvc c k)"
| "cinvc (InR l a k d c) kh = (invc l \<and> (k = RED \<longrightarrow> col l = BLACK \<and> kh = BLACK) \<and> cinvc c k)"

lemma col_plug: "col (plug c t) = ccol c (col t)"
  by (induction c arbitrary: t) simp_all

lemma invc_plug: "invc (plug c t) = (invc t \<and> cinvc c (col t))"
  by (induction c arbitrary: t) (simp_all add: conj_ac)

lemma invh_plug: "invh (plug c t) = (invh t \<and> cinvh c (bh t))"
  by (induction c arbitrary: t) (simp_all add: conj_ac cong: conj_cong)

lemma Color_neq: "(k \<noteq> BLACK) = (k = RED)" "(k \<noteq> RED) = (k = BLACK)"
  by (cases k; simp)+

lemma bh_paint_BLACK: "col t = RED \<Longrightarrow> bh (paint BLACK t) = bh t + 1"
  by (cases t) auto

lemma invh_paint [simp]: "invh (paint k t) = invh t"
  by (cases t) auto

lemma invc_paint_BLACK: "invc t \<Longrightarrow> invc (paint BLACK t)"
  by (cases t) auto

lemma col_paint_BLACK [simp]: "col (paint BLACK t) = BLACK"
  by (cases t) auto

lemma cinvc_BLACK: "cinvc c k \<Longrightarrow> cinvc c BLACK"
  by (cases c) auto

lemma fixT_rbt:
  "col t = RED \<Longrightarrow> invh t \<Longrightarrow> invc t \<Longrightarrow> cinvh c (bh t) \<Longrightarrow> cinvc c BLACK
   \<Longrightarrow> ccol c BLACK = BLACK
   \<Longrightarrow> invh (fixT c t) \<and> invc (fixT c t) \<and> col (fixT c t) = BLACK"
proof (induction c t rule: fixT.induct)
  case (1 t)
  then show ?case by (cases t) auto
next
  case (2 p pc pd sr t)
  then show ?case by auto
next
  case (3 sl p pc pd t)
  then show ?case by auto
next
  case (4 c g gc gd u p pc pd sr t)
  then show ?case
    by (cases pc; cases gc; cases "col u")
      (simp_all add: invh_plug invc_plug col_plug bh_paint_BLACK invc_paint_BLACK cinvc_BLACK)
next
  case (5 sl p pc pd c g gc gd u t)
  then show ?case
    by (cases t; cases pc; cases gc; cases "col u")
      (simp_all add: invh_plug invc_plug col_plug bh_paint_BLACK invc_paint_BLACK cinvc_BLACK)
next
  case (6 u g gc gd c p pc pd sr t)
  then show ?case
    by (cases t; cases pc; cases gc; cases "col u")
      (simp_all add: invh_plug invc_plug col_plug bh_paint_BLACK invc_paint_BLACK cinvc_BLACK)
next
  case (7 sl p pc pd u g gc gd c t)
  then show ?case
    by (cases pc; cases gc; cases "col u")
      (simp_all add: invh_plug invc_plug col_plug bh_paint_BLACK invc_paint_BLACK cinvc_BLACK)
qed

lemma fixT_inorder: "t \<noteq> Lf \<Longrightarrow> inorder (fixT c t) = cinl c @ inorder t @ cinr c"
  by (induction c t rule: fixT.induct) (auto simp: inorder_plug split: tr.splits)

section \<open>Insertion\<close>

lemma ins_pos_plug: "ins_pos f x c t = Some c' \<Longrightarrow> plug c' Lf = plug c t"
  by (induction t arbitrary: c) (auto split: if_splits)

lemma insertToRBTree_new:
  assumes t: "tree_of s t" and b: "col t = BLACK" and p: "ins_pos f x Top t = Some c"
    and a: "nodes s a = None"
  shows "\<exists>s'. insertToRBTree f (Some s) (Some a) (Some x) = Some (SUCCESS, Some s')
     \<and> tree_of s' (fixT c (Nd Lf a RED x Lf))
     \<and> size_f s' = size_f s + 1 \<and> vars s' = vars s \<and> destructed s' = destructed s
     \<and> dom (nodes s') = insert a (dom (nodes s))"
proof (cases t)
  case Lf
  with p have c: "c = Top" by simp
  from Lf t have r: "root s = None" by (simp add: tree_of_def)
  show ?thesis
    using r a by (simp add: insertToRBTree_def c tree_of_def)
next
  case (Nd l n k d r)
  define n0 :: "'a Node" where "n0 = \<lparr>parent = None, left = None, right = None, data = Some x, color = BLACK\<rparr>"
  define s0 where "s0 = s\<lparr>nodes := (nodes s)(a \<mapsto> n0)\<rparr>"
  from Nd t have rt: "root s = Some n" by (simp add: tree_of_def)
  have an: "a \<notin> set (addrl t)" using tree_of_alloc [OF t a] .
  have t0: "tree_of s0 (plug Top t)" using tree_of_nodes_upd [OF t an] by (simp add: s0_def)
  have n: "nodes s0 a = Some \<lparr>parent = None, left = None, right = None, data = Some x, color = BLACK\<rparr>"
    by (simp add: s0_def n0_def)
  from insertNode_loop_new [OF n t0 _ p] an
  obtain s1 where i: "insertNode_loop f s0 (Some a) (ptr_of t) None 0 = Some (SUCCESS, s1)"
    and t1: "tree_of s1 (plug c (Nd Lf a BLACK x Lf))"
    and sm: "same s0 s1 (insert a (set (addrl t)))"
    by auto
  have i': "insertNode f s0 (Some a) = Some (SUCCESS, s1)"
    using i rt by (simp add: insertNode_def s0_def Nd)
  have pl: "plug c Lf = t" using ins_pos_plug [OF p] by simp
  have cc: "ccol c BLACK = BLACK" using b col_plug [of c Lf] by (simp add: pl)
  have t1r: "tree_of (redden {a} s1) (plug c (Nd Lf a RED x Lf))"
    using tree_of_setcol [OF t1, of RED] by (simp add: redden_insert [of a "{}"])
  from updateColors_spec [OF t1r refl _ _ cc]
  obtain k s2 where u: "updateColors s1 (Some a) = Some (k, s2)"
    and t2: "tree_of (setcol a k s2) (fixT c (Nd Lf a RED x Lf))" and un: "unch s1 s2"
    by auto
  have A: "set (addrl (plug c (Nd Lf a BLACK x Lf))) = insert a (set (addrl t))"
    using set_addrl_plug [of c "Nd Lf a BLACK x Lf"] set_addrl_plug [of c Lf] by (simp add: pl)
  have "(nodes s1 z = None) = (nodes s0 z = None)" for z
  proof (cases "z \<in> insert a (set (addrl t))")
    case True
    then have "nodes s1 z \<noteq> None"
      using rp_alloc [of "nodes s1" None "plug c (Nd Lf a BLACK x Lf)" z] t1 A
      by (simp add: tree_of_def)
    moreover have "nodes s0 z \<noteq> None"
      using True rp_alloc [of "nodes s0" None t z] t0 n by (auto simp: tree_of_def)
    ultimately show ?thesis by auto
  next
    case False
    with sm show ?thesis by (simp add: same_def)
  qed
  then have "dom (nodes s1) = dom (nodes s0)" by (auto simp: dom_def)
  then have d1: "dom (nodes s1) = insert a (dom (nodes s))" by (simp add: s0_def)
  from d1 un obtain na where na: "nodes s2 a = Some na" by (auto simp: unch_def dom_def)
  have f: "size_f s2 = size_f s" "vars s2 = vars s" "destructed s2 = destructed s"
    "dom (nodes s2) = insert a (dom (nodes s))"
    using sm un d1 by (simp_all add: same_def unch_def s0_def)
  have pc: "put (Some a) (\<lambda>n. n\<lparr>color := k\<rparr>) s2 = Some (setcol a k s2)"
    using put_color [OF na] .
  have r0: "root s \<noteq> None" using rt by simp
  have "insertToRBTree f (Some s) (Some a) (Some x)
      = Some (SUCCESS, Some ((setcol a k s2)\<lparr>size_f := size_f (setcol a k s2) + 1\<rparr>))"
    using i' u pc rt unfolding insertToRBTree_def s0_def n0_def
    by (simp add: Let_def del: setcol_fields)
  moreover have "tree_of ((setcol a k s2)\<lparr>size_f := size_f (setcol a k s2) + 1\<rparr>) (fixT c (Nd Lf a RED x Lf))"
    using t2 by (simp add: tree_of_def)
  ultimately show ?thesis using f by (simp del: setcol_fields add: setcol_fields(1-4))
qed

lemma fixT_ins_rbt:
  assumes "rbt t" and "ins_pos f x Top t = Some c"
  shows "rbt (fixT c (Nd Lf a RED x Lf))"
proof -
  have pl: "plug c Lf = t" using ins_pos_plug [OF assms(2)] by simp
  from assms(1) have "invh (plug c Lf)" "invc (plug c Lf)" "col (plug c Lf) = BLACK"
    by (simp_all add: rbt_def pl)
  then have "cinvh c 0" "cinvc c BLACK" "ccol c BLACK = BLACK"
    by (simp_all add: invh_plug invc_plug col_plug)
  with fixT_rbt [of "Nd Lf a RED x Lf" c] show ?thesis by (simp add: rbt_def)
qed

lemma fixT_ins_inorder:
  assumes "ins_pos f x Top t = Some c"
  shows "inorder (fixT c (Nd Lf a RED x Lf)) = cinl c @ x # cinr c" "inorder t = cinl c @ cinr c"
  using ins_pos_plug [OF assms] inorder_plug [of c Lf] by (simp_all add: fixT_inorder)

lemma fixT_ins_bst:
  assumes "cmp_ok f" and "bst f t" and "ins_pos f x Top t = Some c"
  shows "bst f (fixT c (Nd Lf a RED x Lf))"
proof -
  from assms(2) have s: "sorted_wrt (lt f) (inorder t)" by (simp add: bst_def)
  from ins_pos_Some [OF assms(1,3) _ _ s]
  have "\<forall>e\<in>set (cinl c). lt f e x" "\<forall>e\<in>set (cinr c). lt f x e" by simp_all
  with s show ?thesis
    by (auto simp: bst_def fixT_ins_inorder [OF assms(3)] sorted_wrt_append)
qed

text \<open>The inner cases of the fix-up: the new node is the right child of a red left child, or
  the left child of a red right child, and the uncle is black.\<close>

fun zigzag :: "'a ctx \<Rightarrow> bool" where
  "zigzag (InR sl p pc pd (InL c g gc gd u)) = (pc = RED \<and> col u = BLACK)"
| "zigzag (InL (InR u g gc gd c) p pc pd sr) = (pc = RED \<and> col u = BLACK)"
| "zigzag c = False"

text \<open>The nodes of a tree with the records the store holds for them, \<open>par\<close> being the
  parent pointer of the root.\<close>

fun nodes_of :: "ptr \<Rightarrow> 'a tr \<Rightarrow> (addr \<times> 'a Node) set" where
  "nodes_of par Lf = {}"
| "nodes_of par (Nd l a k d r) =
     insert (a, \<lparr>parent = par, left = ptr_of l, right = ptr_of r, data = Some d, color = k\<rparr>)
       (nodes_of (Some a) l \<union> nodes_of (Some a) r)"

text \<open>The nodes two levels or more below the root: no step of the fix-up at the root of the
  tree changes them.\<close>

fun below :: "'a tr \<Rightarrow> (addr \<times> 'a Node) set" where
  "below Lf = {}"
| "below (Nd l a k d r) = nodes_of (Some a) l \<union> nodes_of (Some a) r"

fun gset :: "'a tr \<Rightarrow> (addr \<times> 'a Node) set" where
  "gset Lf = {}"
| "gset (Nd l a k d r) = below l \<union> below r"

text \<open>The context above the parent.\<close>

fun cup :: "'a ctx \<Rightarrow> 'a ctx" where
  "cup Top = Top"
| "cup (InL c a k d r) = c"
| "cup (InR l a k d c) = c"

lemma rp_nodes_of: "rp h par t \<Longrightarrow> (a, n) \<in> nodes_of par t \<Longrightarrow> h a = Some n"
  by (induction t arbitrary: par) auto

lemma tree_of_nodes_of: "tree_of s t \<Longrightarrow> (a, n) \<in> nodes_of None t \<Longrightarrow> nodes s a = Some n"
  using rp_nodes_of [of "nodes s" None t a n] by (simp add: tree_of_def)

lemma nodes_of_plug: "nodes_of (cpar tp c) t \<subseteq> nodes_of tp (plug c t)"
proof (induction c arbitrary: t)
  case Top
  show ?case by simp
next
  case (InL c b k d r)
  have "nodes_of (Some b) t \<subseteq> nodes_of (cpar tp c) (Nd t b k d r)" by auto
  with InL [of "Nd t b k d r"] show ?case by auto
next
  case (InR l b k d c)
  have "nodes_of (Some b) t \<subseteq> nodes_of (cpar tp c) (Nd l b k d t)" by auto
  with InR [of "Nd l b k d t"] show ?case by auto
qed

lemma below_nodes_of: "below t \<subseteq> nodes_of par t"
  by (cases t) auto

lemma gset_below: "gset t \<subseteq> below t"
proof (cases t)
  case Lf
  then show ?thesis by simp
next
  case (Nd l a k d r)
  with below_nodes_of [of l "Some a"] below_nodes_of [of r "Some a"] show ?thesis by auto
qed

lemma gset_nodes_of: "gset t \<subseteq> nodes_of par t"
  using gset_below [of t] below_nodes_of [of t par] by auto

lemma below_paint [simp]: "below (paint k t) = below t"
  by (cases t) auto

lemma in_plug: "x \<in> nodes_of (cpar None c) t \<Longrightarrow> x \<in> nodes_of None (plug c t)"
  using nodes_of_plug [of None c t] by auto

lemma fixT_deep: "x \<in> gset t \<Longrightarrow> x \<in> nodes_of None (fixT c t)"
proof (induction c t rule: fixT.induct)
  case (1 t)
  then show ?case using gset_below [of t] by (cases t) auto
next
  case (2 p pc pd sr t)
  then show ?case using gset_nodes_of [of t "Some p"] by auto
next
  case (3 sl p pc pd t)
  then show ?case using gset_nodes_of [of t "Some p"] by auto
next
  case (4 c g gc gd u p pc pd sr t)
  have g: "x \<in> gset (Nd (Nd t p BLACK pd sr) g RED gd (paint BLACK u))"
    using 4(2) gset_nodes_of [of t "Some p"] by auto
  have n: "x \<in> nodes_of (Some p) t" using 4(2) gset_nodes_of [of t "Some p"] by auto
  show ?case
  proof (cases "pc = BLACK")
    case True
    have "x \<in> nodes_of (cpar None c) (Nd (Nd t p pc pd sr) g gc gd u)" using n by simp
    from in_plug [OF this] True show ?thesis by simp
  next
    case F: False
    show ?thesis
    proof (cases "col u = BLACK")
      case True
      have "x \<in> nodes_of (cpar None c) (Nd t p BLACK pd (Nd sr g RED gd u))" using n by simp
      from in_plug [OF this] F True show ?thesis by simp
    next
      case False
      from 4(1) [OF F False g] F False show ?thesis by simp
    qed
  qed
next
  case (5 sl p pc pd c g gc gd u t)
  have g: "x \<in> gset (Nd (Nd sl p BLACK pd t) g RED gd (paint BLACK u))"
    using 5(2) gset_nodes_of [of t "Some p"] by auto
  have n: "x \<in> nodes_of (Some p) t" using 5(2) gset_nodes_of [of t "Some p"] by auto
  show ?case
  proof (cases "pc = BLACK")
    case True
    have "x \<in> nodes_of (cpar None c) (Nd (Nd sl p pc pd t) g gc gd u)" using n by simp
    from in_plug [OF this] True show ?thesis by simp
  next
    case F: False
    show ?thesis
    proof (cases "col u = BLACK")
      case True
      obtain l y ky dy r where t: "t = Nd l y ky dy r" using 5(2) by (cases t) auto
      from 5(2) have "x \<in> below l \<union> below r" by (simp add: t)
      with below_nodes_of [of l "Some p"] below_nodes_of [of r "Some g"]
      have "x \<in> nodes_of (cpar None c) (Nd (Nd sl p RED pd l) y BLACK dy (Nd r g RED gd u))" by auto
      from in_plug [OF this] F True show ?thesis by (simp add: t)
    next
      case False
      from 5(1) [OF F False g] F False show ?thesis by simp
    qed
  qed
next
  case (6 u g gc gd c p pc pd sr t)
  have g: "x \<in> gset (Nd (paint BLACK u) g RED gd (Nd t p BLACK pd sr))"
    using 6(2) gset_nodes_of [of t "Some p"] by auto
  have n: "x \<in> nodes_of (Some p) t" using 6(2) gset_nodes_of [of t "Some p"] by auto
  show ?case
  proof (cases "pc = BLACK")
    case True
    have "x \<in> nodes_of (cpar None c) (Nd u g gc gd (Nd t p pc pd sr))" using n by simp
    from in_plug [OF this] True show ?thesis by simp
  next
    case F: False
    show ?thesis
    proof (cases "col u = BLACK")
      case True
      obtain l y ky dy r where t: "t = Nd l y ky dy r" using 6(2) by (cases t) auto
      from 6(2) have "x \<in> below l \<union> below r" by (simp add: t)
      with below_nodes_of [of l "Some g"] below_nodes_of [of r "Some p"]
      have "x \<in> nodes_of (cpar None c) (Nd (Nd u g RED gd l) y BLACK dy (Nd r p RED pd sr))" by auto
      from in_plug [OF this] F True show ?thesis by (simp add: t)
    next
      case False
      from 6(1) [OF F False g] F False show ?thesis by simp
    qed
  qed
next
  case (7 sl p pc pd u g gc gd c t)
  have g: "x \<in> gset (Nd (paint BLACK u) g RED gd (Nd sl p BLACK pd t))"
    using 7(2) gset_nodes_of [of t "Some p"] by auto
  have n: "x \<in> nodes_of (Some p) t" using 7(2) gset_nodes_of [of t "Some p"] by auto
  show ?case
  proof (cases "pc = BLACK")
    case True
    have "x \<in> nodes_of (cpar None c) (Nd u g gc gd (Nd sl p pc pd t))" using n by simp
    from in_plug [OF this] True show ?thesis by simp
  next
    case F: False
    show ?thesis
    proof (cases "col u = BLACK")
      case True
      have "x \<in> nodes_of (cpar None c) (Nd (Nd u g RED gd sl) p BLACK pd t)" using n by simp
      from in_plug [OF this] F True show ?thesis by simp
    next
      case False
      from 7(1) [OF F False g] F False show ?thesis by simp
    qed
  qed
qed

text \<open>The record of the new node after the insert that placed it at the position \<open>c\<close>.\<close>

definition new_node :: "'a ctx \<Rightarrow> 'a \<Rightarrow> 'a Node" where
  "new_node c x =
     (if c = Top then
        \<lparr>parent = None, left = None, right = None, data = Some x, color = BLACK\<rparr>
      else if zigzag c then
        \<lparr>parent = cpar None (cup (cup c)),
         left = (if cside c = RIGHT then cpar None c else cpar None (cup c)),
         right = (if cside c = RIGHT then cpar None (cup c) else cpar None c),
         data = Some x, color = BLACK\<rparr>
      else \<lparr>parent = cpar None c, left = None, right = None, data = Some x, color = RED\<rparr>)"

lemma fixT_new_node: "(a, new_node c x) \<in> nodes_of None (fixT c (Nd Lf a RED x Lf))"
proof (cases "(c, Nd Lf a RED x Lf)" rule: fixT.cases)
  case (4 c' g gc gd u p pc pd sr t)
  have "(a, \<lparr>parent = Some p, left = None, right = None, data = Some x, color = RED\<rparr>)
      \<in> gset (Nd (Nd (Nd Lf a RED x Lf) p BLACK pd sr) g RED gd (paint BLACK u))"
    by simp
  from fixT_deep [OF this, of c'] 4 show ?thesis
    by (cases pc) (auto simp: new_node_def intro!: in_plug)
next
  case (5 sl p pc pd c' g gc gd u t)
  have "(a, \<lparr>parent = Some p, left = None, right = None, data = Some x, color = RED\<rparr>)
      \<in> gset (Nd (Nd sl p BLACK pd (Nd Lf a RED x Lf)) g RED gd (paint BLACK u))"
    by simp
  from fixT_deep [OF this, of c'] 5 show ?thesis
    by (cases pc) (auto simp: new_node_def intro!: in_plug)
next
  case (6 u g gc gd c' p pc pd sr t)
  have "(a, \<lparr>parent = Some p, left = None, right = None, data = Some x, color = RED\<rparr>)
      \<in> gset (Nd (paint BLACK u) g RED gd (Nd (Nd Lf a RED x Lf) p BLACK pd sr))"
    by simp
  from fixT_deep [OF this, of c'] 6 show ?thesis
    by (cases pc) (auto simp: new_node_def intro!: in_plug)
next
  case (7 sl p pc pd u g gc gd c' t)
  have "(a, \<lparr>parent = Some p, left = None, right = None, data = Some x, color = RED\<rparr>)
      \<in> gset (Nd (paint BLACK u) g RED gd (Nd sl p BLACK pd (Nd Lf a RED x Lf)))"
    by simp
  from fixT_deep [OF this, of c'] 7 show ?thesis
    by (cases pc) (auto simp: new_node_def intro!: in_plug)
qed (auto simp: new_node_def)

lemma insert_new:
  assumes "tree_of s t" and "col t = BLACK" and "ins_pos f x Top t = Some c" and "nodes s a = None"
  shows "\<exists>s'. insertToRBTree f (Some s) (Some a) (Some x) = Some (SUCCESS, Some s')
     \<and> tree_of s' (fixT c (Nd Lf a RED x Lf))
     \<and> inorder t = cinl c @ cinr c \<and> inorder (fixT c (Nd Lf a RED x Lf)) = cinl c @ x # cinr c
     \<and> size_f s' = size_f s + 1
     \<and> nodes s' a = Some (new_node c x)"
proof -
  from insertToRBTree_new [OF assms]
  obtain s' where i: "insertToRBTree f (Some s) (Some a) (Some x) = Some (SUCCESS, Some s')"
    and t': "tree_of s' (fixT c (Nd Lf a RED x Lf))" and sz: "size_f s' = size_f s + 1"
    by auto
  from tree_of_nodes_of [OF t' fixT_new_node] i t' sz fixT_ins_inorder [OF assms(3)]
  show ?thesis by blast
qed

text \<open>
  C2 (as the specification states it). The new node does not always end up red in a tree that
  was not empty: inserting the key 15 into the tree that holds 20 (black, the root) and 10
  (red, its left child) puts the new node as the right child of the red node 10; the uncle is
  absent, the node is rotated twice and \<open>updateColors\<close> returns \<open>BLACK\<close> for it. It ends
  up as the black root, with the nodes of 10 and 20 as its children: neither red nor a leaf.
\<close>

theorem insert_new_node_black:
  "root st2 = Some 2 \<and> size_f st2 = 2
   \<and> map_option (\<lambda>r. (fst r, map_option (\<lambda>s'. (root s', get color s' (Some 3),
          get left s' (Some 3), get right s' (Some 3), size_f s')) (snd r)))
        (insertToRBTree exampleCompare (Some st2) (Some 3) (Some 15))
     = Some (SUCCESS, Some (Some 3, Some BLACK, Some (Some 1), Some (Some 2), 3))"
  by code_simp

text \<open>
  C2 (amended). On a tree with a black root (or none), for a payload \<open>x\<close> whose descent
  (\<open>ins_pos\<close>: left when the comparator is negative, right when it is positive) ends at an
  empty position \<open>c\<close>, \<open>insertToRBTree\<close> returns success and the count grows by one. The
  store then holds the tree \<open>fixT\<close> gives: the tree with the new node at the position \<open>c\<close>,
  after the recolourings and rotations of \<open>updateColors\<close>; the payload stands at the position
  of the descent in the in-order sequence. The new node (\<open>new_node\<close>) ends up red and a leaf,
  the child of the node where the descent ended, except in two cases where it ends up black:
  the tree was empty and it is the root; or it was placed as an inner grandchild (\<open>zigzag\<close>)
  under a red parent with a black or absent uncle, and it has been rotated above its parent
  and its grandparent, which are now its two children.
\<close>

theorem insert_places_new_node:
  assumes "tree_of s t" and "col t = BLACK" and "ins_pos f x Top t = Some c" and "nodes s a = None"
  shows "\<exists>s'. insertToRBTree f (Some s) (Some a) (Some x) = Some (SUCCESS, Some s')
     \<and> tree_of s' (fixT c (Nd Lf a RED x Lf))
     \<and> inorder t = cinl c @ cinr c \<and> inorder (fixT c (Nd Lf a RED x Lf)) = cinl c @ x # cinr c
     \<and> size_f s' = size_f s + 1
     \<and> nodes s' a = Some (new_node c x)"
  using insert_new [OF assms] .

theorem insert_places_new_node_witness:
  "tree_of st2 (Nd (Nd Lf 1 RED 10 Lf) 2 BLACK 20 Lf) \<and> col (Nd (Nd Lf 1 RED 10 Lf) 2 BLACK (20::int) Lf) = BLACK
   \<and> ins_pos exampleCompare 15 Top (Nd (Nd Lf 1 RED 10 Lf) 2 BLACK 20 Lf)
       = Some (InR Lf 1 RED 10 (InL Top 2 BLACK 20 Lf))
   \<and> nodes st2 3 = None
   \<and> (\<exists>s'. insertToRBTree exampleCompare (Some st2) (Some 3) (Some 15) = Some (SUCCESS, Some s')
        \<and> tree_of s' (Nd (Nd Lf 1 RED 10 Lf) 3 BLACK 15 (Nd Lf 2 RED 20 Lf))
        \<and> inorder (Nd (Nd Lf 1 RED 10 Lf) 3 BLACK 15 (Nd Lf 2 RED (20::int) Lf)) = [10, 15, 20]
        \<and> size_f s' = 3
        \<and> nodes s' 3 = Some \<lparr>parent = None, left = Some 1, right = Some 2, data = Some 15,
             color = BLACK\<rparr>)"
proof -
  have p: "ins_pos exampleCompare 15 Top (Nd (Nd Lf 1 RED 10 Lf) 2 BLACK 20 Lf)
       = Some (InR Lf 1 RED 10 (InL Top 2 BLACK 20 Lf))"
    by (simp add: exampleCompare_def)
  have n: "nodes st2 3 = None" by (simp add: st2_def newRBTree_def)
  have z: "size_f st2 = 2" by (simp add: st2_def newRBTree_def)
  from insert_places_new_node [OF tree_of_st2 _ p n]
  show ?thesis using tree_of_st2 p n z by (simp add: new_node_def)
qed

section \<open>Deletion on trees\<close>

text \<open>What the double-black resolution makes of a tree. The names follow the code:
  \<open>closeL\<close>, \<open>farL\<close> are \<open>closeRedNephewDB\<close>, \<open>farRedNephewDB\<close> on the sibling of a deficient
  left child (\<open>childSide = LEFT\<close>), \<open>closeR\<close>, \<open>farR\<close> the same for a deficient right child.\<close>

fun lft :: "'a tr \<Rightarrow> 'a tr" where
  "lft Lf = Lf"
| "lft (Nd l a k d r) = l"

fun rgt :: "'a tr \<Rightarrow> 'a tr" where
  "rgt Lf = Lf"
| "rgt (Nd l a k d r) = r"

fun closeL :: "'a tr \<Rightarrow> 'a tr" where
  "closeL Lf = Lf"
| "closeL (Nd sl s sc sd sr) =
     (case sl of Lf \<Rightarrow> Nd sl s sc sd sr
      | Nd a n nc nd b \<Rightarrow> if nc = RED then Nd a n BLACK nd (Nd b s RED sd sr) else Nd sl s sc sd sr)"

fun closeR :: "'a tr \<Rightarrow> 'a tr" where
  "closeR Lf = Lf"
| "closeR (Nd sl s sc sd sr) =
     (case sr of Lf \<Rightarrow> Nd sl s sc sd sr
      | Nd a n nc nd b \<Rightarrow> if nc = RED then Nd (Nd sl s RED sd a) n BLACK nd b else Nd sl s sc sd sr)"

fun farL :: "'a tr \<Rightarrow> addr \<Rightarrow> Color \<Rightarrow> 'a \<Rightarrow> 'a tr \<Rightarrow> 'a tr" where
  "farL t p pc pd Lf = Nd t p pc pd Lf"
| "farL t p pc pd (Nd l s k d r) =
     (if col r = RED then Nd (Nd t p k pd l) s pc d (paint BLACK r)
      else Nd t p pc pd (Nd l s k d r))"

fun farR :: "'a tr \<Rightarrow> addr \<Rightarrow> Color \<Rightarrow> 'a \<Rightarrow> 'a tr \<Rightarrow> 'a tr" where
  "farR t p pc pd Lf = Nd Lf p pc pd t"
| "farR t p pc pd (Nd l s k d r) =
     (if col l = RED then
        (if col r = RED then Nd l s pc d (Nd (paint BLACK r) p k pd t)
         else Nd (paint BLACK l) s pc d (Nd r p k pd t))
      else Nd (Nd l s k d r) p pc pd t)"

text \<open>\<open>blackSiblingDB\<close> on the subtree of the parent \<open>p\<close>: the new subtree, and whether the
  deficiency moves up to it (the call of \<open>solveDB\<close> for the parent).\<close>

definition bsL :: "'a tr \<Rightarrow> addr \<Rightarrow> Color \<Rightarrow> 'a \<Rightarrow> 'a tr \<Rightarrow> bool \<times> 'a tr" where
  "bsL t p pc pd sib =
     (if col (lft sib) = BLACK \<and> col (rgt sib) = BLACK then
        (if pc = RED then (False, farL t p BLACK pd (closeL (paint RED sib)))
         else (True, Nd t p pc pd (paint RED sib)))
      else (False, farL t p pc pd (closeL sib)))"

definition bsR :: "'a tr \<Rightarrow> addr \<Rightarrow> Color \<Rightarrow> 'a \<Rightarrow> 'a tr \<Rightarrow> bool \<times> 'a tr" where
  "bsR t p pc pd sib =
     (if col (lft sib) = BLACK \<and> col (rgt sib) = BLACK then
        (if pc = RED then (False, farR t p BLACK pd (closeR (paint RED sib)))
         else (True, Nd (paint RED sib) p pc pd t))
      else (False, farR t p pc pd (closeR sib)))"

text \<open>\<open>solveDB\<close> for the deficient subtree \<open>t\<close> in the context \<open>c\<close>. \<open>None\<close> where the sibling
  is absent (the code dereferences \<open>NULL\<close>), and for a red sibling whose inner child is absent
  or red, which no red-black tree has.\<close>

fun solveA :: "'a ctx \<Rightarrow> 'a tr \<Rightarrow> 'a tr option" where
  "solveA Top t = Some t"
| "solveA (InL c p pc pd sib) t =
     (case sib of Lf \<Rightarrow> None
      | Nd sl s sc sd sr \<Rightarrow>
          if sc = RED then
            (if sl \<noteq> Lf \<and> col sl = BLACK
             then Some (plug c (Nd (snd (bsL t p RED pd sl)) s BLACK sd sr)) else None)
          else if fst (bsL t p pc pd sib) then solveA c (snd (bsL t p pc pd sib))
          else Some (plug c (snd (bsL t p pc pd sib))))"
| "solveA (InR sib p pc pd c) t =
     (case sib of Lf \<Rightarrow> None
      | Nd sl s sc sd sr \<Rightarrow>
          if sc = RED then
            (if sr \<noteq> Lf \<and> col sr = BLACK
             then Some (plug c (Nd sl s BLACK sd (snd (bsR t p RED pd sr)))) else None)
          else if fst (bsR t p pc pd sib) then solveA c (snd (bsR t p pc pd sib))
          else Some (plug c (snd (bsR t p pc pd sib))))"

text \<open>\<open>balanceTree\<close>: the node to delete is the root of \<open>m\<close>, in the context \<open>c\<close>.\<close>

fun balA :: "'a ctx \<Rightarrow> 'a tr \<Rightarrow> 'a tr option" where
  "balA c Lf = None"
| "balA c (Nd l a k d r) =
     (if k = RED then Some (plug c Lf)
      else let ch = (if l = Lf then r else if r = Lf then l else Lf) in
        if col ch = RED then Some (plug c (paint BLACK ch)) else solveA c ch)"

text \<open>The descent of \<open>findNode\<close>: the node found, with its context.\<close>

fun find_pos :: "('a option \<Rightarrow> 'a option \<Rightarrow> int) \<Rightarrow> 'a option \<Rightarrow> 'a ctx \<Rightarrow> 'a tr
    \<Rightarrow> ('a ctx \<times> 'a tr) option" where
  "find_pos f x c Lf = None"
| "find_pos f x c (Nd l a k d r) =
     (if f x (Some d) = 0 then Some (c, Nd l a k d r)
      else if f x (Some d) < 0 then find_pos f x (InL c a k d r) l
      else find_pos f x (InR l a k d c) r)"

text \<open>The leftmost node of a tree (what \<open>findSuccessor\<close> finds in the right subtree), with its
  context.\<close>

fun split_min :: "'a ctx \<Rightarrow> 'a tr \<Rightarrow> 'a ctx \<times> 'a tr" where
  "split_min c Lf = (c, Lf)"
| "split_min c (Nd l a k d r) = (if l = Lf then (c, Nd l a k d r) else split_min (InL c a k d r) l)"

text \<open>Contexts compose: \<open>comp c1 c2\<close> is \<open>c2\<close> inside the hole of \<open>c1\<close>.\<close>

fun comp :: "'a ctx \<Rightarrow> 'a ctx \<Rightarrow> 'a ctx" where
  "comp c1 Top = c1"
| "comp c1 (InL c a k d r) = InL (comp c1 c) a k d r"
| "comp c1 (InR l a k d c) = InR l a k d (comp c1 c)"

text \<open>\<open>placeBeforeDeletion\<close>: where the node to delete stands after \<open>switchNodes\<close> has
  exchanged it with its only child, or with its successor when it has two children. The
  two nodes exchange places and colours: the tree keeps its shape and its colours, and the
  addresses and payloads of the two nodes change places.\<close>

fun placeA :: "'a ctx \<Rightarrow> 'a tr \<Rightarrow> 'a ctx \<times> 'a tr" where
  "placeA c Lf = (c, Lf)"
| "placeA c (Nd l a k d r) =
     (case l of
        Lf \<Rightarrow> (case r of Lf \<Rightarrow> (c, Nd l a k d r)
               | Nd rl b kb db rr \<Rightarrow> (InR Lf b k db c, Nd rl a kb d rr))
      | Nd ll b kb db lr \<Rightarrow>
          (case r of Lf \<Rightarrow> (InL c b k db Lf, Nd ll a kb d lr)
           | Nd rl b0 k0 d0 rr \<Rightarrow>
               (case split_min Top r of
                  (cs, Lf) \<Rightarrow> (c, Nd l a k d r)
                | (cs, Nd ml m km dm mr) \<Rightarrow> (comp (InR l m k dm c) cs, Nd ml a km d mr))))"

definition delA :: "('a option \<Rightarrow> 'a option \<Rightarrow> int) \<Rightarrow> 'a option \<Rightarrow> 'a tr \<Rightarrow> 'a tr option" where
  "delA f x t =
     (case find_pos f x Top t of None \<Rightarrow> None
      | Some (c, m) \<Rightarrow> (case placeA c m of (c', m') \<Rightarrow> balA c' m'))"

section \<open>The steps of the double-black resolution in the store\<close>

lemma focus:
  assumes "tree_of s (plug c (Nd l x k d r))"
  shows "get parent s (Some x) = Some (cpar None c)" "get left s (Some x) = Some (ptr_of l)"
    "get right s (Some x) = Some (ptr_of r)" "get data s (Some x) = Some (Some d)"
    "getSide s (Some x) = Some (cside c)" "get color s (Some x) = Some k"
  using focus_X [of "{}" s c l x k d r] assms by simp_all

lemma recolor:
  assumes "tree_of s (plug c (Nd l x k d r))"
  shows "\<exists>s'. put (Some x) (\<lambda>n. n\<lparr>color := k'\<rparr>) s = Some s'
           \<and> tree_of s' (plug c (Nd l x k' d r)) \<and> unch s s'"
  using recolor_X [of "{}" s c l x k d r k'] assms by simp

lemma rotL:
  assumes "tree_of s (plug c (Nd (Nd a x cx dx b) y cy dy r))"
  shows "\<exists>s'. rotate_rb s (Some x) (Some y) = Some s'
     \<and> tree_of s' (plug c (Nd a x cx dx (Nd b y cy dy r))) \<and> unch s s'"
  using rotate_X_L [of "{}" s c a x cx dx b y cy dy r] assms by simp

lemma rotR:
  assumes "tree_of s (plug c (Nd l y cy dy (Nd a x cx dx b)))"
  shows "\<exists>s'. rotate_rb s (Some x) (Some y) = Some s'
     \<and> tree_of s' (plug c (Nd (Nd l y cy dy a) x cx dx b)) \<and> unch s s'"
  using rotate_X_R [of "{}" s c l y cy dy a x cx dx b] assms by simp

lemma isRed_tr: "tree_of s (plug c u) \<Longrightarrow> isRed s (ptr_of u) = Some (col u = RED)"
  using focus(6) [of s c] by (cases u) (auto simp: isRed_def)

lemma isNullOrBlack_tr: "tree_of s (plug c u) \<Longrightarrow> isNullOrBlack s (ptr_of u) = Some (col u = BLACK)"
  using focus(6) [of s c] by (cases u) (auto simp: isNullOrBlack_def)

lemma col_RED: "col u = RED \<Longrightarrow> \<exists>l a d r. u = Nd l a RED d r"
  by (cases u) auto

text \<open>The pointers \<open>parentP\<close> and \<open>childP\<close> of \<open>solveDB\<close>, for the deficient subtree \<open>t\<close> whose
  parent pointer is \<open>pp\<close>: each is a local of \<open>deleteFromRBTree\<close> or the \<open>parent\<close> field of a
  node of \<open>t\<close>.\<close>

definition pref_ok :: "(var \<Rightarrow> ptr) \<Rightarrow> ptr \<Rightarrow> 'a tr \<Rightarrow> ref \<Rightarrow> bool" where
  "pref_ok vs pp t r = ((\<exists>v. r = Var v \<and> vs v = pp) \<or> (\<exists>x. ptr_of t = Some x \<and> r = ParentOf x))"

definition cref_ok :: "(var \<Rightarrow> ptr) \<Rightarrow> 'a tr \<Rightarrow> ref \<Rightarrow> bool" where
  "cref_ok vs t r = ((\<exists>v. r = Var v \<and> vs v = ptr_of t)
     \<or> (\<exists>y. (ptr_of (lft t) = Some y \<or> ptr_of (rgt t) = Some y) \<and> r = ParentOf y))"

lemma rd_pref:
  assumes "tree_of s (plug c t)" and "pref_ok (vars s) (cpar None c) t r"
  shows "rd s r = Some (cpar None c)"
proof -
  from assms(2) consider v where "r = Var v" "vars s v = cpar None c"
    | x where "ptr_of t = Some x" "r = ParentOf x"
    by (auto simp: pref_ok_def)
  then show ?thesis
  proof cases
    case 1
    then show ?thesis by (simp add: rd_def)
  next
    case 2
    then obtain l k d r' where "t = Nd l x k d r'" by (cases t) auto
    with assms(1) focus(1) [of s c l x k d r'] 2 show ?thesis by (simp add: rd_def)
  qed
qed

lemma rd_cref:
  assumes "tree_of s (plug c t)" and "cref_ok (vars s) t r"
  shows "rd s r = Some (ptr_of t)"
proof -
  from assms(2) consider v where "r = Var v" "vars s v = ptr_of t"
    | y where "ptr_of (lft t) = Some y" "r = ParentOf y"
    | y where "ptr_of (rgt t) = Some y" "r = ParentOf y"
    by (auto simp: cref_ok_def)
  then show ?thesis
  proof cases
    case 1
    then show ?thesis by (simp add: rd_def)
  next
    case 2
    then obtain l x k d r' where t: "t = Nd l x k d r'" by (cases t) auto
    with 2 obtain ll kl dl lr where l: "l = Nd ll y kl dl lr" by (cases l) auto
    from assms(1) have "tree_of s (plug (InL c x k d r') (Nd ll y kl dl lr))" by (simp add: t l)
    from focus(1) [OF this] 2 show ?thesis by (simp add: rd_def t)
  next
    case 3
    then obtain l x k d r' where t: "t = Nd l x k d r'" by (cases t) auto
    with 3 obtain rl kr dr rr where r: "r' = Nd rl y kr dr rr" by (cases r') auto
    from assms(1) have "tree_of s (plug (InR l x k d c) (Nd rl y kr dr rr))" by (simp add: t r)
    from focus(1) [OF this] 3 show ?thesis by (simp add: rd_def t)
  qed
qed

lemma rd_RightOf: "tree_of s (plug c (Nd l x k d r)) \<Longrightarrow> rd s (RightOf x) = Some (ptr_of r)"
  by (simp add: rd_def focus)

lemma rd_LeftOf: "tree_of s (plug c (Nd l x k d r)) \<Longrightarrow> rd s (LeftOf x) = Some (ptr_of l)"
  by (simp add: rd_def focus)

lemma closeRedNephewDB_L:
  assumes T: "tree_of s (plug c (Nd t p pc pd (Nd sl sa sc sd sr)))"
  shows "\<exists>s'. closeRedNephewDB s (RightOf p) LEFT = Some s'
     \<and> tree_of s' (plug c (Nd t p pc pd (closeL (Nd sl sa sc sd sr)))) \<and> unch s s'"
proof -
  note r0 = rd_RightOf [OF T]
  from T have T': "tree_of s (plug (InR t p pc pd c) (Nd sl sa sc sd sr))" by simp
  note l0 = focus(2) [OF T']
  from T' have "tree_of s (plug (InL (InR t p pc pd c) sa sc sd sr) sl)" by simp
  note red = isRed_tr [OF this]
  show ?thesis
  proof (cases "col sl = RED")
    case False
    then have "closeL (Nd sl sa sc sd sr) = Nd sl sa sc sd sr" by (cases sl) auto
    with False T show ?thesis by (simp add: closeRedNephewDB_def r0 l0 red)
  next
    case True
    then obtain a n nd b where sl: "sl = Nd a n RED nd b" using col_RED by blast
    from T' have "tree_of s (plug (InL (InR t p pc pd c) sa sc sd sr) (Nd a n RED nd b))"
      by (simp add: sl)
    from recolor [OF this, of BLACK] obtain s1 where
      s1: "put (Some n) (\<lambda>n. n\<lparr>color := BLACK\<rparr>) s = Some s1"
      "tree_of s1 (plug (InL (InR t p pc pd c) sa sc sd sr) (Nd a n BLACK nd b))" "unch s s1"
      by blast
    from s1(2) have T1: "tree_of s1 (plug c (Nd t p pc pd (Nd (Nd a n BLACK nd b) sa sc sd sr)))"
      and T1': "tree_of s1 (plug (InR t p pc pd c) (Nd (Nd a n BLACK nd b) sa sc sd sr))"
      by simp_all
    from recolor [OF T1', of RED] obtain s2 where
      s2: "put (Some sa) (\<lambda>n. n\<lparr>color := RED\<rparr>) s1 = Some s2"
      "tree_of s2 (plug (InR t p pc pd c) (Nd (Nd a n BLACK nd b) sa RED sd sr))" "unch s1 s2"
      by blast
    from s2(2) have T2: "tree_of s2 (plug c (Nd t p pc pd (Nd (Nd a n BLACK nd b) sa RED sd sr)))"
      by simp
    from rotL [OF s2(2)] obtain s3 where
      s3: "rotate_rb s2 (Some n) (Some sa) = Some s3"
      "tree_of s3 (plug (InR t p pc pd c) (Nd a n BLACK nd (Nd b sa RED sd sr)))" "unch s2 s3"
      by blast
    from red True have red': "isRed s (Some n) = Some True" by (simp add: sl)
    have "closeRedNephewDB s (RightOf p) LEFT = Some s3"
      by (simp add: closeRedNephewDB_def r0 l0 red' sl s1(1) rd_RightOf [OF T1] s2(1)
          rd_RightOf [OF T2] focus(2) [OF s2(2)] s3(1))
    with s3(2) unch_trans [OF unch_trans [OF s1(3) s2(3)] s3(3)] show ?thesis
      by (simp add: sl)
  qed
qed

lemma rd_pref':
  assumes "tree_of s' (plug c t)" and "cpar None c = pp" and "pref_ok vs pp t r" and "vars s' = vs"
  shows "rd s' r = Some pp"
  using rd_pref [of s' c t r] assms by simp

lemma rd_cref':
  assumes "tree_of s' (plug c t)" and "cref_ok vs t r" and "vars s' = vs"
  shows "rd s' r = Some (ptr_of t)"
  using rd_cref [of s' c t r] assms by simp

lemma unch_vars: "unch s s' \<Longrightarrow> vars s' = vars s"
  by (simp add: unch_def)

lemma wr_RightOf_same:
  assumes "tree_of s (plug c (Nd l x k d r))"
  shows "wr (RightOf x) (ptr_of r) s = Some s"
proof -
  note n = node_focus [OF assms]
  have "(nodes s)(x \<mapsto> \<lparr>parent = cpar None c, left = ptr_of l, right = ptr_of r, data = Some d,
      color = k\<rparr>) = nodes s"
    using n by (rule fun_upd_idem)
  then show ?thesis by (simp add: wr_def put_Some [OF n])
qed

lemma wr_LeftOf_same:
  assumes "tree_of s (plug c (Nd l x k d r))"
  shows "wr (LeftOf x) (ptr_of l) s = Some s"
proof -
  note n = node_focus [OF assms]
  have "(nodes s)(x \<mapsto> \<lparr>parent = cpar None c, left = ptr_of l, right = ptr_of r, data = Some d,
      color = k\<rparr>) = nodes s"
    using n by (rule fun_upd_idem)
  then show ?thesis by (simp add: wr_def put_Some [OF n])
qed

lemma farRedNephewDB_L:
  assumes T: "tree_of s (plug c (Nd t p pc pd (Nd l' s' k' d' r')))"
    and P: "pref_ok (vars s) (Some p) t parentP"
  shows "\<exists>s1. farRedNephewDB s parentP (RightOf p) LEFT = Some s1
     \<and> tree_of s1 (plug c (farL t p pc pd (Nd l' s' k' d' r'))) \<and> unch s s1"
proof -
  note r0 = rd_RightOf [OF T]
  from T have T': "tree_of s (plug (InR t p pc pd c) (Nd l' s' k' d' r'))" by simp
  from T' have "tree_of s (plug (InR l' s' k' d' (InR t p pc pd c)) r')" by simp
  note red = isRed_tr [OF this]
  show ?thesis
  proof (cases "col r' = RED")
    case False
    with T show ?thesis by (simp add: farRedNephewDB_def r0 focus(3) [OF T'] red)
  next
    case True
    then obtain fa f fd fb where r': "r' = Nd fa f RED fd fb" using col_RED by blast
    from T have Tp: "tree_of s (plug (InL c p pc pd (Nd l' s' k' d' r')) t)" by simp
    note p0 = rd_pref' [OF Tp _ P refl, simplified]
    from recolor [OF T', of pc] obtain s1 where
      s1: "put (Some s') (\<lambda>n. n\<lparr>color := pc\<rparr>) s = Some s1"
      "tree_of s1 (plug (InR t p pc pd c) (Nd l' s' pc d' r'))" "unch s s1"
      by blast
    from s1(2) have T1: "tree_of s1 (plug c (Nd t p pc pd (Nd l' s' pc d' r')))"
      and T1p: "tree_of s1 (plug (InL c p pc pd (Nd l' s' pc d' r')) t)" by simp_all
    note p1 = rd_pref' [OF T1p _ P unch_vars [OF s1(3)], simplified]
    from recolor [OF T1, of k'] obtain s2 where
      s2: "put (Some p) (\<lambda>n. n\<lparr>color := k'\<rparr>) s1 = Some s2"
      "tree_of s2 (plug c (Nd t p k' pd (Nd l' s' pc d' r')))" "unch s1 s2"
      by blast
    from s2(2) have T2: "tree_of s2 (plug (InR t p k' pd c) (Nd l' s' pc d' r'))"
      and T2f: "tree_of s2 (plug (InR l' s' pc d' (InR t p k' pd c)) (Nd fa f RED fd fb))"
      by (simp_all add: r')
    from recolor [OF T2f, of BLACK] obtain s3 where
      s3: "put (Some f) (\<lambda>n. n\<lparr>color := BLACK\<rparr>) s2 = Some s3"
      "tree_of s3 (plug (InR l' s' pc d' (InR t p k' pd c)) (Nd fa f BLACK fd fb))" "unch s2 s3"
      by blast
    from s3(2) have T3: "tree_of s3 (plug c (Nd t p k' pd (Nd l' s' pc d' (Nd fa f BLACK fd fb))))"
      and T3p: "tree_of s3 (plug (InL c p k' pd (Nd l' s' pc d' (Nd fa f BLACK fd fb))) t)"
      by simp_all
    have v3: "vars s3 = vars s" using s1(3) s2(3) s3(3) by (simp add: unch_def)
    note p3 = rd_pref' [OF T3p _ P v3, simplified]
    from rotR [OF T3] obtain s4 where
      s4: "rotate_rb s3 (Some s') (Some p) = Some s4"
      "tree_of s4 (plug c (Nd (Nd t p k' pd l') s' pc d' (Nd fa f BLACK fd fb)))" "unch s3 s4"
      by blast
    from red True have red': "isRed s (Some f) = Some True" by (simp add: r')
    have "farRedNephewDB s parentP (RightOf p) LEFT = Some s4"
      by (simp add: farRedNephewDB_def r0 focus(3) [OF T'] red' r' focus(6) [OF T'] p0
          focus(6) [OF T] s1(1) p1 s2(1) rd_RightOf [OF s2(2)] focus(3) [OF T2]
          isRed_tr [OF T2f, simplified] s3(1) rd_RightOf [OF T3] p3 s4(1))
    with s4(2) unch_trans [OF unch_trans [OF unch_trans [OF s1(3) s2(3)] s3(3)] s4(3)]
    show ?thesis by (simp add: r')
  qed
qed

lemma closeRedNephewDB_R:
  assumes T: "tree_of s (plug c (Nd (Nd sl sa sc sd sr) p pc pd t))"
  shows "\<exists>s'. closeRedNephewDB s (LeftOf p) RIGHT = Some s'
     \<and> tree_of s' (plug c (Nd (closeR (Nd sl sa sc sd sr)) p pc pd t)) \<and> unch s s'"
proof -
  note r0 = rd_LeftOf [OF T]
  from T have T': "tree_of s (plug (InL c p pc pd t) (Nd sl sa sc sd sr))" by simp
  note l0 = focus(3) [OF T']
  from T' have "tree_of s (plug (InR sl sa sc sd (InL c p pc pd t)) sr)" by simp
  note red = isRed_tr [OF this]
  show ?thesis
  proof (cases "col sr = RED")
    case False
    then have "closeR (Nd sl sa sc sd sr) = Nd sl sa sc sd sr" by (cases sr) auto
    with False T show ?thesis by (simp add: closeRedNephewDB_def r0 l0 red)
  next
    case True
    then obtain a n nd b where sr: "sr = Nd a n RED nd b" using col_RED by blast
    from T' have "tree_of s (plug (InR sl sa sc sd (InL c p pc pd t)) (Nd a n RED nd b))"
      by (simp add: sr)
    from recolor [OF this, of BLACK] obtain s1 where
      s1: "put (Some n) (\<lambda>n. n\<lparr>color := BLACK\<rparr>) s = Some s1"
      "tree_of s1 (plug (InR sl sa sc sd (InL c p pc pd t)) (Nd a n BLACK nd b))" "unch s s1"
      by blast
    from s1(2) have T1: "tree_of s1 (plug c (Nd (Nd sl sa sc sd (Nd a n BLACK nd b)) p pc pd t))"
      and T1': "tree_of s1 (plug (InL c p pc pd t) (Nd sl sa sc sd (Nd a n BLACK nd b)))"
      by simp_all
    from recolor [OF T1', of RED] obtain s2 where
      s2: "put (Some sa) (\<lambda>n. n\<lparr>color := RED\<rparr>) s1 = Some s2"
      "tree_of s2 (plug (InL c p pc pd t) (Nd sl sa RED sd (Nd a n BLACK nd b)))" "unch s1 s2"
      by blast
    from s2(2) have T2: "tree_of s2 (plug c (Nd (Nd sl sa RED sd (Nd a n BLACK nd b)) p pc pd t))"
      by simp
    from rotR [OF s2(2)] obtain s3 where
      s3: "rotate_rb s2 (Some n) (Some sa) = Some s3"
      "tree_of s3 (plug (InL c p pc pd t) (Nd (Nd sl sa RED sd a) n BLACK nd b))" "unch s2 s3"
      by blast
    from red True have red': "isRed s (Some n) = Some True" by (simp add: sr)
    have "closeRedNephewDB s (LeftOf p) RIGHT = Some s3"
      by (simp add: closeRedNephewDB_def r0 l0 red' sr s1(1) rd_LeftOf [OF T1] s2(1)
          rd_LeftOf [OF T2] focus(3) [OF s2(2)] s3(1))
    with s3(2) unch_trans [OF unch_trans [OF s1(3) s2(3)] s3(3)] show ?thesis
      by (simp add: sr)
  qed
qed

lemma farRedNephewDB_R:
  assumes T: "tree_of s (plug c (Nd (Nd l' s' k' d' r') p pc pd t))"
    and P: "pref_ok (vars s) (Some p) t parentP"
  shows "\<exists>s1. farRedNephewDB s parentP (LeftOf p) RIGHT = Some s1
     \<and> tree_of s1 (plug c (farR t p pc pd (Nd l' s' k' d' r'))) \<and> unch s s1"
proof -
  note r0 = rd_LeftOf [OF T]
  from T have T': "tree_of s (plug (InL c p pc pd t) (Nd l' s' k' d' r'))" by simp
  from T' have "tree_of s (plug (InL (InL c p pc pd t) s' k' d' r') l')" by simp
  note red = isRed_tr [OF this]
  show ?thesis
  proof (cases "col l' = RED")
    case False
    with T show ?thesis by (simp add: farRedNephewDB_def r0 focus(2) [OF T'] red)
  next
    case True
    then obtain fa f fd fb where l': "l' = Nd fa f RED fd fb" using col_RED by blast
    from T have Tp: "tree_of s (plug (InR (Nd l' s' k' d' r') p pc pd c) t)" by simp
    note p0 = rd_pref' [OF Tp _ P refl, simplified]
    from recolor [OF T', of pc] obtain s1 where
      s1: "put (Some s') (\<lambda>n. n\<lparr>color := pc\<rparr>) s = Some s1"
      "tree_of s1 (plug (InL c p pc pd t) (Nd l' s' pc d' r'))" "unch s s1"
      by blast
    from s1(2) have T1: "tree_of s1 (plug c (Nd (Nd l' s' pc d' r') p pc pd t))"
      and T1p: "tree_of s1 (plug (InR (Nd l' s' pc d' r') p pc pd c) t)" by simp_all
    note p1 = rd_pref' [OF T1p _ P unch_vars [OF s1(3)], simplified]
    from recolor [OF T1, of k'] obtain s2 where
      s2: "put (Some p) (\<lambda>n. n\<lparr>color := k'\<rparr>) s1 = Some s2"
      "tree_of s2 (plug c (Nd (Nd l' s' pc d' r') p k' pd t))" "unch s1 s2"
      by blast
    from s2(2) have T2: "tree_of s2 (plug (InL c p k' pd t) (Nd l' s' pc d' r'))"
      and T2r: "tree_of s2 (plug (InR l' s' pc d' (InL c p k' pd t)) r')"
      by simp_all
    have v2: "vars s2 = vars s" using s1(3) s2(3) by (simp add: unch_def)
    show ?thesis
    proof (cases "col r' = RED")
      case True
      then obtain ra rn rd' rb where r': "r' = Nd ra rn RED rd' rb" using col_RED by blast
      from T2r have "tree_of s2 (plug (InR l' s' pc d' (InL c p k' pd t)) (Nd ra rn RED rd' rb))"
        by (simp add: r')
      from recolor [OF this, of BLACK] obtain s3 where
        s3: "put (Some rn) (\<lambda>n. n\<lparr>color := BLACK\<rparr>) s2 = Some s3"
        "tree_of s3 (plug (InR l' s' pc d' (InL c p k' pd t)) (Nd ra rn BLACK rd' rb))" "unch s2 s3"
        by blast
      from s3(2) have T3: "tree_of s3 (plug c (Nd (Nd (Nd fa f RED fd fb) s' pc d' (Nd ra rn BLACK rd' rb)) p k' pd t))"
        and T3p: "tree_of s3 (plug (InR (Nd l' s' pc d' (Nd ra rn BLACK rd' rb)) p k' pd c) t)"
        by (simp_all add: l')
      have v3: "vars s3 = vars s" using v2 s3(3) by (simp add: unch_def)
      note p3 = rd_pref' [OF T3p _ P v3, simplified]
      from rotL [OF T3] obtain s4 where
        s4: "rotate_rb s3 (Some s') (Some p) = Some s4"
        "tree_of s4 (plug c (Nd (Nd fa f RED fd fb) s' pc d' (Nd (Nd ra rn BLACK rd' rb) p k' pd t)))"
        "unch s3 s4"
        by blast
      from red have red': "isRed s (Some f) = Some True" by (simp add: l')
      from isRed_tr [OF T2r] have red2: "isRed s2 (Some rn) = Some True" by (simp add: r')
      have "farRedNephewDB s parentP (LeftOf p) RIGHT = Some s4"
        by (simp add: farRedNephewDB_def r0 focus(2) [OF T'] red' l' focus(6) [OF T'] p0
            focus(6) [OF T] s1(1) p1 s2(1) rd_LeftOf [OF s2(2)] focus(3) [OF T2]
            red2 r' s3(1) rd_LeftOf [OF T3] p3 s4(1))
      with s4(2) unch_trans [OF unch_trans [OF unch_trans [OF s1(3) s2(3)] s3(3)] s4(3)]
      show ?thesis by (simp add: l' r')
    next
      case False
      from T2 have "tree_of s2 (plug (InL (InL c p k' pd t) s' pc d' r') (Nd fa f RED fd fb))"
        by (simp add: l')
      from recolor [OF this, of BLACK] obtain s3 where
        s3: "put (Some f) (\<lambda>n. n\<lparr>color := BLACK\<rparr>) s2 = Some s3"
        "tree_of s3 (plug (InL (InL c p k' pd t) s' pc d' r') (Nd fa f BLACK fd fb))" "unch s2 s3"
        by blast
      from s3(2) have T3: "tree_of s3 (plug c (Nd (Nd (Nd fa f BLACK fd fb) s' pc d' r') p k' pd t))"
        and T3p: "tree_of s3 (plug (InR (Nd (Nd fa f BLACK fd fb) s' pc d' r') p k' pd c) t)"
        by simp_all
      have v3: "vars s3 = vars s" using v2 s3(3) by (simp add: unch_def)
      note p3 = rd_pref' [OF T3p _ P v3, simplified]
      from rotL [OF T3] obtain s4 where
        s4: "rotate_rb s3 (Some s') (Some p) = Some s4"
        "tree_of s4 (plug c (Nd (Nd fa f BLACK fd fb) s' pc d' (Nd r' p k' pd t)))"
        "unch s3 s4"
        by blast
      from red have red': "isRed s (Some f) = Some True" by (simp add: l')
      have "farRedNephewDB s parentP (LeftOf p) RIGHT = Some s4"
        using False
        by (simp add: farRedNephewDB_def r0 focus(2) [OF T'] red' l' focus(6) [OF T'] p0
            focus(6) [OF T] s1(1) p1 s2(1) rd_LeftOf [OF s2(2)] focus(3) [OF T2] focus(2) [OF T2]
            isRed_tr [OF T2r] s3(1) rd_LeftOf [OF T3] p3 s4(1))
      with s4(2) unch_trans [OF unch_trans [OF unch_trans [OF s1(3) s2(3)] s3(3)] s4(3)] False
      show ?thesis by (simp add: l')
    qed
  qed
qed

lemma closeL_Nd: "\<exists>l' s' k' d' r'. closeL (Nd sl sa sc sd sr) = Nd l' s' k' d' r'"
  by (cases sl) auto

lemma closeR_Nd: "\<exists>l' s' k' d' r'. closeR (Nd sl sa sc sd sr) = Nd l' s' k' d' r'"
  by (cases sr) auto

lemma blackSiblingDB_tail_L:
  assumes T: "tree_of s (plug c (Nd t p pc pd (Nd sl sa sc sd sr)))"
    and P: "pref_ok (vars s) (Some p) t parentP" and C: "cref_ok (vars s) t childP"
  shows "\<exists>s'. blackSiblingDB_tail s parentP (RightOf p) childP LEFT = Some s'
     \<and> tree_of s' (plug c (farL t p pc pd (closeL (Nd sl sa sc sd sr)))) \<and> unch s s'"
proof -
  from closeRedNephewDB_L [OF T] obtain s1 where
    s1: "closeRedNephewDB s (RightOf p) LEFT = Some s1"
    "tree_of s1 (plug c (Nd t p pc pd (closeL (Nd sl sa sc sd sr))))" "unch s s1"
    by blast
  obtain l' s' k' d' r' where cl: "closeL (Nd sl sa sc sd sr) = Nd l' s' k' d' r'"
    using closeL_Nd [of sl sa sc sd sr] by auto
  from s1(2) have T1: "tree_of s1 (plug c (Nd t p pc pd (Nd l' s' k' d' r')))" unfolding cl .
  then have T1p: "tree_of s1 (plug (InL c p pc pd (Nd l' s' k' d' r')) t)" by simp
  note v1 = unch_vars [OF s1(3)]
  note p1 = rd_pref' [OF T1p _ P v1, simplified]
  note c1 = rd_cref' [OF T1p C v1]
  note w = wr_RightOf_same [OF T1]
  have P1: "pref_ok (vars s1) (Some p) t parentP" using P v1 by simp
  from farRedNephewDB_L [OF T1 P1] obtain s2 where
    s2: "farRedNephewDB s1 parentP (RightOf p) LEFT = Some s2"
    "tree_of s2 (plug c (farL t p pc pd (Nd l' s' k' d' r')))" "unch s1 s2"
    by blast
  have "blackSiblingDB_tail s parentP (RightOf p) childP LEFT = Some s2"
    using w by (simp add: blackSiblingDB_tail_def s1(1) p1 focus(2) [OF T1] c1 focus(3) [OF T1] s2(1))
  with s2(2) unch_trans [OF s1(3) s2(3)] show ?thesis unfolding cl by blast
qed

lemma blackSiblingDB_tail_R:
  assumes T: "tree_of s (plug c (Nd (Nd sl sa sc sd sr) p pc pd t))"
    and P: "pref_ok (vars s) (Some p) t parentP" and C: "cref_ok (vars s) t childP"
  shows "\<exists>s'. blackSiblingDB_tail s parentP (LeftOf p) childP RIGHT = Some s'
     \<and> tree_of s' (plug c (farR t p pc pd (closeR (Nd sl sa sc sd sr)))) \<and> unch s s'"
proof -
  from closeRedNephewDB_R [OF T] obtain s1 where
    s1: "closeRedNephewDB s (LeftOf p) RIGHT = Some s1"
    "tree_of s1 (plug c (Nd (closeR (Nd sl sa sc sd sr)) p pc pd t))" "unch s s1"
    by blast
  obtain l' s' k' d' r' where cl: "closeR (Nd sl sa sc sd sr) = Nd l' s' k' d' r'"
    using closeR_Nd [of sl sa sc sd sr] by auto
  from s1(2) have T1: "tree_of s1 (plug c (Nd (Nd l' s' k' d' r') p pc pd t))" unfolding cl .
  then have T1p: "tree_of s1 (plug (InR (Nd l' s' k' d' r') p pc pd c) t)" by simp
  note v1 = unch_vars [OF s1(3)]
  note p1 = rd_pref' [OF T1p _ P v1, simplified]
  note c1 = rd_cref' [OF T1p C v1]
  note w = wr_LeftOf_same [OF T1]
  from T1 have "distinct (addrl (Nd (Nd l' s' k' d' r') p pc pd t))" by (simp add: tree_of_plug)
  then have "s' \<notin> set (addrl t)" by auto
  then have ne: "Some s' \<noteq> ptr_of t" by simp
  have P1: "pref_ok (vars s1) (Some p) t parentP" using P v1 by simp
  from farRedNephewDB_R [OF T1 P1] obtain s2 where
    s2: "farRedNephewDB s1 parentP (LeftOf p) RIGHT = Some s2"
    "tree_of s2 (plug c (farR t p pc pd (Nd l' s' k' d' r')))" "unch s1 s2"
    by blast
  have "blackSiblingDB_tail s parentP (LeftOf p) childP RIGHT = Some s2"
    using w ne by (simp add: blackSiblingDB_tail_def s1(1) p1 focus(2) [OF T1] c1 s2(1))
  with s2(2) unch_trans [OF s1(3) s2(3)] show ?thesis unfolding cl by blast
qed

lemma blackSiblingDB_L:
  assumes T: "tree_of s (plug c (Nd t p pc pd (Nd sl sa sc sd sr)))"
    and P: "pref_ok (vars s) (Some p) t parentP" and C: "cref_ok (vars s) t childP"
  shows "if fst (bsL t p pc pd (Nd sl sa sc sd sr))
     then \<exists>s'. blackSiblingDB R s parentP (RightOf p) childP LEFT
             = R s' (ParentOf p) parentP (cside c)
          \<and> tree_of s' (plug c (snd (bsL t p pc pd (Nd sl sa sc sd sr)))) \<and> unch s s'
     else \<exists>s'. blackSiblingDB R s parentP (RightOf p) childP LEFT = Some s'
          \<and> tree_of s' (plug c (snd (bsL t p pc pd (Nd sl sa sc sd sr)))) \<and> unch s s'"
proof -
  note r0 = rd_RightOf [OF T]
  from T have T': "tree_of s (plug (InR t p pc pd c) (Nd sl sa sc sd sr))" by simp
  from T' have "tree_of s (plug (InL (InR t p pc pd c) sa sc sd sr) sl)" by simp
  note bl = isNullOrBlack_tr [OF this]
  from T' have "tree_of s (plug (InR sl sa sc sd (InR t p pc pd c)) sr)" by simp
  note br = isNullOrBlack_tr [OF this]
  show ?thesis
  proof (cases "col sl = BLACK \<and> col sr = BLACK")
    case False
    from blackSiblingDB_tail_L [OF T P C] obtain s' where
      s': "blackSiblingDB_tail s parentP (RightOf p) childP LEFT = Some s'"
      "tree_of s' (plug c (farL t p pc pd (closeL (Nd sl sa sc sd sr))))" "unch s s'"
      by blast
    have "blackSiblingDB R s parentP (RightOf p) childP LEFT = Some s'"
      using False by (auto simp add: blackSiblingDB_def r0 focus(2) [OF T'] bl focus(3) [OF T'] br s'(1))
    with s'(2,3) False show ?thesis by (auto simp: bsL_def)
  next
    case True
    from recolor [OF T', of RED] obtain s1 where
      s1: "put (Some sa) (\<lambda>n. n\<lparr>color := RED\<rparr>) s = Some s1"
      "tree_of s1 (plug (InR t p pc pd c) (Nd sl sa RED sd sr))" "unch s s1"
      by blast
    from s1(2) have T1: "tree_of s1 (plug c (Nd t p pc pd (Nd sl sa RED sd sr)))"
      and T1p: "tree_of s1 (plug (InL c p pc pd (Nd sl sa RED sd sr)) t)" by simp_all
    note v1 = unch_vars [OF s1(3)]
    note p1 = rd_pref' [OF T1p _ P v1, simplified]
    show ?thesis
    proof (cases "pc = RED")
      case False
      have "blackSiblingDB R s parentP (RightOf p) childP LEFT = R s1 (ParentOf p) parentP (cside c)"
        using True False
        by (simp add: blackSiblingDB_def r0 focus(2) [OF T'] bl focus(3) [OF T'] br s1(1) p1
            focus(6) [OF T1] field_ref_def focus(5) [OF T1])
      with T1 s1(3) True False show ?thesis by (auto simp: bsL_def)
    next
      case pr: True
      from recolor [OF T1, of BLACK] obtain s2 where
        s2: "put (Some p) (\<lambda>n. n\<lparr>color := BLACK\<rparr>) s1 = Some s2"
        "tree_of s2 (plug c (Nd t p BLACK pd (Nd sl sa RED sd sr)))" "unch s1 s2"
        by blast
      have v2: "vars s2 = vars s" using s1(3) s2(3) by (simp add: unch_def)
      from blackSiblingDB_tail_L [OF s2(2), of parentP childP] P C v2 obtain s' where
        s': "blackSiblingDB_tail s2 parentP (RightOf p) childP LEFT = Some s'"
        "tree_of s' (plug c (farL t p BLACK pd (closeL (Nd sl sa RED sd sr))))" "unch s2 s'"
        by auto
      have "blackSiblingDB R s parentP (RightOf p) childP LEFT = Some s'"
        using True pr
        by (simp add: blackSiblingDB_def r0 focus(2) [OF T'] bl focus(3) [OF T'] br s1(1) p1
            focus(6) [OF T1] s2(1) s'(1))
      with s'(2) unch_trans [OF unch_trans [OF s1(3) s2(3)] s'(3)] True pr show ?thesis
        by (auto simp: bsL_def)
    qed
  qed
qed

lemma blackSiblingDB_R:
  assumes T: "tree_of s (plug c (Nd (Nd sl sa sc sd sr) p pc pd t))"
    and P: "pref_ok (vars s) (Some p) t parentP" and C: "cref_ok (vars s) t childP"
  shows "if fst (bsR t p pc pd (Nd sl sa sc sd sr))
     then \<exists>s'. blackSiblingDB R s parentP (LeftOf p) childP RIGHT
             = R s' (ParentOf p) parentP (cside c)
          \<and> tree_of s' (plug c (snd (bsR t p pc pd (Nd sl sa sc sd sr)))) \<and> unch s s'
     else \<exists>s'. blackSiblingDB R s parentP (LeftOf p) childP RIGHT = Some s'
          \<and> tree_of s' (plug c (snd (bsR t p pc pd (Nd sl sa sc sd sr)))) \<and> unch s s'"
proof -
  note r0 = rd_LeftOf [OF T]
  from T have T': "tree_of s (plug (InL c p pc pd t) (Nd sl sa sc sd sr))" by simp
  from T' have "tree_of s (plug (InL (InL c p pc pd t) sa sc sd sr) sl)" by simp
  note bl = isNullOrBlack_tr [OF this]
  from T' have "tree_of s (plug (InR sl sa sc sd (InL c p pc pd t)) sr)" by simp
  note br = isNullOrBlack_tr [OF this]
  show ?thesis
  proof (cases "col sl = BLACK \<and> col sr = BLACK")
    case False
    from blackSiblingDB_tail_R [OF T P C] obtain s' where
      s': "blackSiblingDB_tail s parentP (LeftOf p) childP RIGHT = Some s'"
      "tree_of s' (plug c (farR t p pc pd (closeR (Nd sl sa sc sd sr))))" "unch s s'"
      by blast
    have "blackSiblingDB R s parentP (LeftOf p) childP RIGHT = Some s'"
      using False by (auto simp add: blackSiblingDB_def r0 focus(2) [OF T'] bl focus(3) [OF T'] br s'(1))
    with s'(2,3) False show ?thesis by (auto simp: bsR_def)
  next
    case True
    from recolor [OF T', of RED] obtain s1 where
      s1: "put (Some sa) (\<lambda>n. n\<lparr>color := RED\<rparr>) s = Some s1"
      "tree_of s1 (plug (InL c p pc pd t) (Nd sl sa RED sd sr))" "unch s s1"
      by blast
    from s1(2) have T1: "tree_of s1 (plug c (Nd (Nd sl sa RED sd sr) p pc pd t))"
      and T1p: "tree_of s1 (plug (InR (Nd sl sa RED sd sr) p pc pd c) t)" by simp_all
    note v1 = unch_vars [OF s1(3)]
    note p1 = rd_pref' [OF T1p _ P v1, simplified]
    show ?thesis
    proof (cases "pc = RED")
      case False
      have "blackSiblingDB R s parentP (LeftOf p) childP RIGHT = R s1 (ParentOf p) parentP (cside c)"
        using True False
        by (simp add: blackSiblingDB_def r0 focus(2) [OF T'] bl focus(3) [OF T'] br s1(1) p1
            focus(6) [OF T1] field_ref_def focus(5) [OF T1])
      with T1 s1(3) True False show ?thesis by (auto simp: bsR_def)
    next
      case pr: True
      from recolor [OF T1, of BLACK] obtain s2 where
        s2: "put (Some p) (\<lambda>n. n\<lparr>color := BLACK\<rparr>) s1 = Some s2"
        "tree_of s2 (plug c (Nd (Nd sl sa RED sd sr) p BLACK pd t))" "unch s1 s2"
        by blast
      have v2: "vars s2 = vars s" using s1(3) s2(3) by (simp add: unch_def)
      from blackSiblingDB_tail_R [OF s2(2), of parentP childP] P C v2 obtain s' where
        s': "blackSiblingDB_tail s2 parentP (LeftOf p) childP RIGHT = Some s'"
        "tree_of s' (plug c (farR t p BLACK pd (closeR (Nd sl sa RED sd sr))))" "unch s2 s'"
        by auto
      have "blackSiblingDB R s parentP (LeftOf p) childP RIGHT = Some s'"
        using True pr
        by (simp add: blackSiblingDB_def r0 focus(2) [OF T'] bl focus(3) [OF T'] br s1(1) p1
            focus(6) [OF T1] s2(1) s'(1))
      with s'(2) unch_trans [OF unch_trans [OF s1(3) s2(3)] s'(3)] True pr show ?thesis
        by (auto simp: bsR_def)
    qed
  qed
qed

section \<open>\<open>solveDB\<close>\<close>

lemma solveDB_Top:
  assumes "rd s parentP = Some None"
  shows "solveDB s parentP childP side = Some s"
  by (subst solveDB.simps) (simp add: assms)

lemma solveDB_step_L:
  assumes "rd s parentP = Some (Some p)" and "get left s (Some p) = Some ch"
    and "rd s childP = Some ch"
    and "rd s (RightOf p) = Some (Some sa)"
    and "get color s (Some sa) = Some sc"
  shows "solveDB s parentP childP side =
     (if sc = RED then do {
         s1 \<leftarrow> put (Some sa) (\<lambda>n. n\<lparr>color := BLACK\<rparr>) s;
         par1 \<leftarrow> rd s1 parentP;
         s2 \<leftarrow> put par1 (\<lambda>n. n\<lparr>color := RED\<rparr>) s1;
         sib2 \<leftarrow> rd s2 (RightOf p);
         par2 \<leftarrow> rd s2 parentP;
         s3 \<leftarrow> rotate_rb s2 sib2 par2;
         solveDB s3 parentP childP side
       }
       else blackSiblingDB solveDB s parentP (RightOf p) childP side)"
  by (subst solveDB.simps) (simp add: assms field_ref_def)

lemma solveDB_step_R:
  assumes "rd s parentP = Some (Some p)" and "get left s (Some p) = Some pl"
    and "rd s childP = Some ch" and "pl \<noteq> ch"
    and "rd s (LeftOf p) = Some (Some sa)"
    and "get color s (Some sa) = Some sc"
  shows "solveDB s parentP childP side =
     (if sc = RED then do {
         s1 \<leftarrow> put (Some sa) (\<lambda>n. n\<lparr>color := BLACK\<rparr>) s;
         par1 \<leftarrow> rd s1 parentP;
         s2 \<leftarrow> put par1 (\<lambda>n. n\<lparr>color := RED\<rparr>) s1;
         sib2 \<leftarrow> rd s2 (LeftOf p);
         par2 \<leftarrow> rd s2 parentP;
         s3 \<leftarrow> rotate_rb s2 sib2 par2;
         solveDB s3 parentP childP side
       }
       else blackSiblingDB solveDB s parentP (LeftOf p) childP side)"
  by (subst solveDB.simps) (simp add: assms field_ref_def)

lemma bsL_prop: "fst (bsL t p pc pd sib) \<Longrightarrow> snd (bsL t p pc pd sib) = Nd t p pc pd (paint RED sib)"
  by (auto simp: bsL_def split: if_splits)

lemma bsR_prop: "fst (bsR t p pc pd sib) \<Longrightarrow> snd (bsR t p pc pd sib) = Nd (paint RED sib) p pc pd t"
  by (auto simp: bsR_def split: if_splits)

lemma bsL_RED [simp]: "fst (bsL t p RED pd sib) = False"
  by (simp add: bsL_def)

lemma bsR_RED [simp]: "fst (bsR t p RED pd sib) = False"
  by (simp add: bsR_def)

lemma cref_up_L: "pref_ok vs (Some p) t r \<Longrightarrow> cref_ok vs (Nd t p k d u) r"
  by (auto simp: pref_ok_def cref_ok_def)

lemma cref_up_R: "pref_ok vs (Some p) t r \<Longrightarrow> cref_ok vs (Nd u p k d t) r"
  by (auto simp: pref_ok_def cref_ok_def)

lemma pref_ParentOf: "pref_ok vs pp (Nd l p k d r) (ParentOf p)"
  by (simp add: pref_ok_def)

lemma solveDB_spec:
  "solveA c t = Some T \<Longrightarrow> tree_of s (plug c t) \<Longrightarrow> pref_ok (vars s) (cpar None c) t parentP
   \<Longrightarrow> cref_ok (vars s) t childP
   \<Longrightarrow> \<exists>s'. solveDB s parentP childP (cside c) = Some s' \<and> tree_of s' T \<and> unch s s'"
proof (induction c t arbitrary: s parentP childP rule: solveA.induct)
  case (1 t)
  from rd_pref [OF "1.prems"(2,3)] have "rd s parentP = Some None" by simp
  from solveDB_Top [OF this] "1.prems" show ?case by simp
next
  case (2 c p pc pd sib t)
  from "2.prems"(1) obtain sl sa sc sd sr where sib: "sib = Nd sl sa sc sd sr"
    by (cases sib) auto
  from "2.prems"(2) have T0: "tree_of s (plug c (Nd t p pc pd (Nd sl sa sc sd sr)))"
    and T0p: "tree_of s (plug (InL c p pc pd (Nd sl sa sc sd sr)) t)"
    and T0s: "tree_of s (plug (InR t p pc pd c) (Nd sl sa sc sd sr))"
    by (simp_all add: sib)
  from "2.prems"(3) have P: "pref_ok (vars s) (Some p) t parentP" by simp
  note C = "2.prems"(4)
  note p0 = rd_pref' [OF T0p _ P refl, simplified]
  note c0 = rd_cref [OF T0p C]
  note step = solveDB_step_L [OF p0 focus(2) [OF T0] c0 rd_RightOf [OF T0, simplified] focus(6) [OF T0s]]
  show ?case
  proof (cases "sc = RED")
    case False
    note bs = blackSiblingDB_L [OF T0 P C, of solveDB]
    show ?thesis
    proof (cases "fst (bsL t p pc pd sib)")
      case True
      with bs obtain s1 where
        s1: "blackSiblingDB solveDB s parentP (RightOf p) childP LEFT
               = solveDB s1 (ParentOf p) parentP (cside c)"
        "tree_of s1 (plug c (snd (bsL t p pc pd sib)))" "unch s s1"
        by (auto simp: sib)
      note t' = bsL_prop [OF True]
      have A: "solveA c (snd (bsL t p pc pd sib)) = Some T"
        using "2.prems"(1) False True by (simp add: sib)
      have P1: "pref_ok (vars s1) (cpar None c) (snd (bsL t p pc pd sib)) (ParentOf p)"
        by (simp add: t' pref_ParentOf)
      have C1: "cref_ok (vars s1) (snd (bsL t p pc pd sib)) parentP"
        using cref_up_L [OF P] unch_vars [OF s1(3)] by (simp add: t')
      from "2.IH" [OF sib False True A s1(2) P1 C1] obtain s' where
        "solveDB s1 (ParentOf p) parentP (cside c) = Some s'" "tree_of s' T" "unch s1 s'"
        by blast
      with s1(1,3) step False show ?thesis by (auto intro: unch_trans)
    next
      case F: False
      with bs obtain s1 where
        s1: "blackSiblingDB solveDB s parentP (RightOf p) childP LEFT = Some s1"
        "tree_of s1 (plug c (snd (bsL t p pc pd sib)))" "unch s s1"
        by (auto simp: sib)
      have "T = plug c (snd (bsL t p pc pd sib))"
        using "2.prems"(1) False F by (simp add: sib)
      with s1 step False show ?thesis by auto
    qed
  next
    case True
    from "2.prems"(1) True obtain nl n nd nr where sl: "sl = Nd nl n BLACK nd nr"
      and T: "T = plug c (Nd (snd (bsL t p RED pd sl)) sa BLACK sd sr)"
      by (cases sl) (auto simp: sib split: if_splits)
    from recolor [OF T0s, of BLACK] obtain s1 where
      s1: "put (Some sa) (\<lambda>n. n\<lparr>color := BLACK\<rparr>) s = Some s1"
      "tree_of s1 (plug (InR t p pc pd c) (Nd sl sa BLACK sd sr))" "unch s s1"
      by blast
    from s1(2) have T1: "tree_of s1 (plug c (Nd t p pc pd (Nd sl sa BLACK sd sr)))"
      and T1p: "tree_of s1 (plug (InL c p pc pd (Nd sl sa BLACK sd sr)) t)" by simp_all
    note p1 = rd_pref' [OF T1p _ P unch_vars [OF s1(3)], simplified]
    from recolor [OF T1, of RED] obtain s2 where
      s2: "put (Some p) (\<lambda>n. n\<lparr>color := RED\<rparr>) s1 = Some s2"
      "tree_of s2 (plug c (Nd t p RED pd (Nd sl sa BLACK sd sr)))" "unch s1 s2"
      by blast
    from s2(2) have T2p: "tree_of s2 (plug (InL c p RED pd (Nd sl sa BLACK sd sr)) t)" by simp
    have v2: "vars s2 = vars s" using s1(3) s2(3) by (simp add: unch_def)
    note p2 = rd_pref' [OF T2p _ P v2, simplified]
    from rotR [OF s2(2)] obtain s3 where
      s3: "rotate_rb s2 (Some sa) (Some p) = Some s3"
      "tree_of s3 (plug c (Nd (Nd t p RED pd sl) sa BLACK sd sr))" "unch s2 s3"
      by blast
    have v3: "vars s3 = vars s" using v2 s3(3) by (simp add: unch_def)
    from s3(2) have T3: "tree_of s3 (plug (InL c sa BLACK sd sr) (Nd t p RED pd (Nd nl n BLACK nd nr)))"
      and T3p: "tree_of s3 (plug (InL (InL c sa BLACK sd sr) p RED pd (Nd nl n BLACK nd nr)) t)"
      and T3s: "tree_of s3 (plug (InR t p RED pd (InL c sa BLACK sd sr)) (Nd nl n BLACK nd nr))"
      by (simp_all add: sl)
    have P3: "pref_ok (vars s3) (Some p) t parentP" and C3: "cref_ok (vars s3) t childP"
      using P C v3 by simp_all
    note p3 = rd_pref' [OF T3p _ P3 refl, simplified]
    note c3 = rd_cref [OF T3p C3]
    note step3 = solveDB_step_L [OF p3 focus(2) [OF T3] c3 rd_RightOf [OF T3, simplified]
        focus(6) [OF T3s], of LEFT]
    from blackSiblingDB_L [OF T3 P3 C3, of solveDB] obtain s4 where
      s4: "blackSiblingDB solveDB s3 parentP (RightOf p) childP LEFT = Some s4"
      "tree_of s4 (plug (InL c sa BLACK sd sr) (snd (bsL t p RED pd (Nd nl n BLACK nd nr))))"
      "unch s3 s4"
      by auto
    have "solveDB s parentP childP LEFT = Some s4"
      using True by (simp add: step s1(1) p1 s2(1) rd_RightOf [OF s2(2)] p2 s3(1) step3 s4(1))
    with s4(2) unch_trans [OF unch_trans [OF unch_trans [OF s1(3) s2(3)] s3(3)] s4(3)]
    show ?thesis by (simp add: T sl)
  qed
next
  case (3 sib p pc pd c t)
  from "3.prems"(1) obtain sl sa sc sd sr where sib: "sib = Nd sl sa sc sd sr"
    by (cases sib) auto
  from "3.prems"(2) have T0: "tree_of s (plug c (Nd (Nd sl sa sc sd sr) p pc pd t))"
    and T0p: "tree_of s (plug (InR (Nd sl sa sc sd sr) p pc pd c) t)"
    and T0s: "tree_of s (plug (InL c p pc pd t) (Nd sl sa sc sd sr))"
    by (simp_all add: sib)
  from "3.prems"(3) have P: "pref_ok (vars s) (Some p) t parentP" by simp
  note C = "3.prems"(4)
  note p0 = rd_pref' [OF T0p _ P refl, simplified]
  note c0 = rd_cref [OF T0p C]
  from T0 have "distinct (addrl (Nd (Nd sl sa sc sd sr) p pc pd t))" by (simp add: tree_of_plug)
  then have "sa \<notin> set (addrl t)" by auto
  then have ne: "Some sa \<noteq> ptr_of t" by simp
  note step = solveDB_step_R [OF p0 focus(2) [OF T0, simplified] c0 ne rd_LeftOf [OF T0, simplified]
      focus(6) [OF T0s]]
  show ?case
  proof (cases "sc = RED")
    case False
    note bs = blackSiblingDB_R [OF T0 P C, of solveDB]
    show ?thesis
    proof (cases "fst (bsR t p pc pd sib)")
      case True
      with bs obtain s1 where
        s1: "blackSiblingDB solveDB s parentP (LeftOf p) childP RIGHT
               = solveDB s1 (ParentOf p) parentP (cside c)"
        "tree_of s1 (plug c (snd (bsR t p pc pd sib)))" "unch s s1"
        by (auto simp: sib)
      note t' = bsR_prop [OF True]
      have A: "solveA c (snd (bsR t p pc pd sib)) = Some T"
        using "3.prems"(1) False True by (simp add: sib)
      have P1: "pref_ok (vars s1) (cpar None c) (snd (bsR t p pc pd sib)) (ParentOf p)"
        by (simp add: t' pref_ParentOf)
      have C1: "cref_ok (vars s1) (snd (bsR t p pc pd sib)) parentP"
        using cref_up_R [OF P] unch_vars [OF s1(3)] by (simp add: t')
      from "3.IH" [OF sib False True A s1(2) P1 C1] obtain s' where
        "solveDB s1 (ParentOf p) parentP (cside c) = Some s'" "tree_of s' T" "unch s1 s'"
        by blast
      with s1(1,3) step False show ?thesis by (auto intro: unch_trans)
    next
      case F: False
      with bs obtain s1 where
        s1: "blackSiblingDB solveDB s parentP (LeftOf p) childP RIGHT = Some s1"
        "tree_of s1 (plug c (snd (bsR t p pc pd sib)))" "unch s s1"
        by (auto simp: sib)
      have "T = plug c (snd (bsR t p pc pd sib))"
        using "3.prems"(1) False F by (simp add: sib)
      with s1 step False show ?thesis by auto
    qed
  next
    case True
    from "3.prems"(1) True obtain nl n nd nr where sr: "sr = Nd nl n BLACK nd nr"
      and T: "T = plug c (Nd sl sa BLACK sd (snd (bsR t p RED pd sr)))"
      by (cases sr) (auto simp: sib split: if_splits)
    from recolor [OF T0s, of BLACK] obtain s1 where
      s1: "put (Some sa) (\<lambda>n. n\<lparr>color := BLACK\<rparr>) s = Some s1"
      "tree_of s1 (plug (InL c p pc pd t) (Nd sl sa BLACK sd sr))" "unch s s1"
      by blast
    from s1(2) have T1: "tree_of s1 (plug c (Nd (Nd sl sa BLACK sd sr) p pc pd t))"
      and T1p: "tree_of s1 (plug (InR (Nd sl sa BLACK sd sr) p pc pd c) t)" by simp_all
    note p1 = rd_pref' [OF T1p _ P unch_vars [OF s1(3)], simplified]
    from recolor [OF T1, of RED] obtain s2 where
      s2: "put (Some p) (\<lambda>n. n\<lparr>color := RED\<rparr>) s1 = Some s2"
      "tree_of s2 (plug c (Nd (Nd sl sa BLACK sd sr) p RED pd t))" "unch s1 s2"
      by blast
    from s2(2) have T2p: "tree_of s2 (plug (InR (Nd sl sa BLACK sd sr) p RED pd c) t)" by simp
    have v2: "vars s2 = vars s" using s1(3) s2(3) by (simp add: unch_def)
    note p2 = rd_pref' [OF T2p _ P v2, simplified]
    from rotL [OF s2(2)] obtain s3 where
      s3: "rotate_rb s2 (Some sa) (Some p) = Some s3"
      "tree_of s3 (plug c (Nd sl sa BLACK sd (Nd sr p RED pd t)))" "unch s2 s3"
      by blast
    have v3: "vars s3 = vars s" using v2 s3(3) by (simp add: unch_def)
    from s3(2) have T3: "tree_of s3 (plug (InR sl sa BLACK sd c) (Nd (Nd nl n BLACK nd nr) p RED pd t))"
      and T3p: "tree_of s3 (plug (InR (Nd nl n BLACK nd nr) p RED pd (InR sl sa BLACK sd c)) t)"
      and T3s: "tree_of s3 (plug (InL (InR sl sa BLACK sd c) p RED pd t) (Nd nl n BLACK nd nr))"
      by (simp_all add: sr)
    have P3: "pref_ok (vars s3) (Some p) t parentP" and C3: "cref_ok (vars s3) t childP"
      using P C v3 by simp_all
    note p3 = rd_pref' [OF T3p _ P3 refl, simplified]
    note c3 = rd_cref [OF T3p C3]
    from T3 have "distinct (addrl (Nd (Nd nl n BLACK nd nr) p RED pd t))" by (simp add: tree_of_plug)
    then have "n \<notin> set (addrl t)" by auto
    then have ne3: "Some n \<noteq> ptr_of t" by simp
    note step3 = solveDB_step_R [OF p3 focus(2) [OF T3, simplified] c3 ne3 rd_LeftOf [OF T3, simplified]
        focus(6) [OF T3s], of RIGHT]
    from blackSiblingDB_R [OF T3 P3 C3, of solveDB] obtain s4 where
      s4: "blackSiblingDB solveDB s3 parentP (LeftOf p) childP RIGHT = Some s4"
      "tree_of s4 (plug (InR sl sa BLACK sd c) (snd (bsR t p RED pd (Nd nl n BLACK nd nr))))"
      "unch s3 s4"
      by auto
    have "solveDB s parentP childP RIGHT = Some s4"
      using True by (simp add: step s1(1) p1 s2(1) rd_LeftOf [OF s2(2)] p2 s3(1) step3 s4(1))
    with s4(2) unch_trans [OF unch_trans [OF unch_trans [OF s1(3) s2(3)] s3(3)] s4(3)]
    show ?thesis by (simp add: T sr)
  qed
qed

section \<open>The far-nephew case of the double-black resolution\<close>

text \<open>The frames through which a deficiency climbs before \<open>solveDB\<close> settles it: at each of them
  the parent is black and the sibling is black with no red child, so that \<open>blackSiblingDB\<close>
  recolours the sibling red and calls \<open>solveDB\<close> for the parent. \<open>redsib\<close> is what the climb
  leaves of these frames.\<close>

fun climbs :: "'a ctx \<Rightarrow> bool" where
  "climbs Top = True"
| "climbs (InL c p pc pd sib) =
     (pc = BLACK \<and> sib \<noteq> Lf \<and> col sib = BLACK \<and> col (lft sib) = BLACK \<and> col (rgt sib) = BLACK
      \<and> climbs c)"
| "climbs (InR sib p pc pd c) =
     (pc = BLACK \<and> sib \<noteq> Lf \<and> col sib = BLACK \<and> col (lft sib) = BLACK \<and> col (rgt sib) = BLACK
      \<and> climbs c)"

fun redsib :: "'a ctx \<Rightarrow> 'a ctx" where
  "redsib Top = Top"
| "redsib (InL c p pc pd sib) = InL (redsib c) p pc pd (paint RED sib)"
| "redsib (InR sib p pc pd c) = InR (paint RED sib) p pc pd (redsib c)"

lemma plug_comp: "plug (comp c1 c2) t = plug c1 (plug c2 t)"
  by (induction c2 arbitrary: t) auto

lemma solveA_climb: "climbs cl \<Longrightarrow> solveA (comp C cl) t = solveA C (plug (redsib cl) t)"
proof (induction cl arbitrary: t)
  case Top
  show ?case by simp
next
  case (InL cl p pc pd sib)
  then obtain sl s sd sr where sib: "sib = Nd sl s BLACK sd sr" by (cases sib) auto
  from InL.prems have b: "bsL t p pc pd sib = (True, Nd t p pc pd (paint RED sib))"
    by (simp add: bsL_def sib)
  from InL.prems have "climbs cl" by simp
  from InL.IH [OF this, of "Nd t p pc pd (paint RED sib)"] b show ?case
    by (simp add: sib)
next
  case (InR sib p pc pd cl)
  then obtain sl s sd sr where sib: "sib = Nd sl s BLACK sd sr" by (cases sib) auto
  from InR.prems have b: "bsR t p pc pd sib = (True, Nd (paint RED sib) p pc pd t)"
    by (simp add: bsR_def sib)
  from InR.prems have "climbs cl" by simp
  from InR.IH [OF this, of "Nd (paint RED sib) p pc pd t"] b show ?case
    by (simp add: sib)
qed

lemma closeL_BLACK:
  assumes "col sib = BLACK" and "closeL sib = Nd l' s' k' d' r'"
  shows "k' = BLACK \<and> sib \<noteq> Lf \<and> (col r' = RED \<longrightarrow> \<not> (col (lft sib) = BLACK \<and> col (rgt sib) = BLACK))"
proof (cases sib)
  case Lf
  with assms show ?thesis by simp
next
  case (Nd sl s sc sd sr)
  with assms show ?thesis by (cases sl) (auto split: if_splits)
qed

lemma closeR_BLACK:
  assumes "col sib = BLACK" and "closeR sib = Nd l' s' k' d' r'" and "invc sib"
  shows "k' = BLACK \<and> sib \<noteq> Lf \<and> col r' = BLACK
     \<and> (col l' = RED \<longrightarrow> \<not> (col (lft sib) = BLACK \<and> col (rgt sib) = BLACK))"
proof (cases sib)
  case Lf
  with assms show ?thesis by simp
next
  case (Nd sl s sc sd sr)
  show ?thesis
  proof (cases sr)
    case Lf
    with Nd assms show ?thesis by auto
  next
    case n: (Nd a n nc nd b)
    with Nd assms show ?thesis by (cases nc) auto
  qed
qed

lemma far_L:
  assumes cl: "climbs cl" and b: "col sib = BLACK"
    and c: "closeL sib = Nd near sa k sd (Nd fl f RED fd fr)"
    and P: "pref_ok (vars s) (cpar None (comp (InL c p pc pd sib) cl)) t parentP"
    and C: "cref_ok (vars s) t childP"
    and T: "tree_of s (plug (comp (InL c p pc pd sib) cl) t)"
  shows "\<exists>s'. solveDB s parentP childP (cside (comp (InL c p pc pd sib) cl)) = Some s'
     \<and> tree_of s' (plug c (Nd (Nd (plug (redsib cl) t) p k pd near) sa pc sd (Nd fl f BLACK fd fr)))"
proof -
  from closeL_BLACK [OF b c] obtain sl s0 sd0 sr where sib: "sib = Nd sl s0 BLACK sd0 sr"
    and nb: "\<not> (col sl = BLACK \<and> col sr = BLACK)"
    using b by (cases sib) auto
  from nb have bs: "bsL (plug (redsib cl) t) p pc pd sib
      = (False, farL (plug (redsib cl) t) p pc pd (closeL sib))"
    unfolding bsL_def sib by (auto simp del: closeL.simps)
  have "solveA (InL c p pc pd sib) (plug (redsib cl) t)
      = Some (plug c (farL (plug (redsib cl) t) p pc pd (closeL sib)))"
    unfolding bs solveA.simps sib [symmetric] by (simp add: sib bs)
  then have "solveA (InL c p pc pd sib) (plug (redsib cl) t)
      = Some (plug c (Nd (Nd (plug (redsib cl) t) p k pd near) sa pc sd (Nd fl f BLACK fd fr)))"
    unfolding c by simp
  then have A: "solveA (comp (InL c p pc pd sib) cl) t
      = Some (plug c (Nd (Nd (plug (redsib cl) t) p k pd near) sa pc sd (Nd fl f BLACK fd fr)))"
    by (simp add: solveA_climb [OF cl])
  from solveDB_spec [OF A T P C] show ?thesis by blast
qed

lemma far_R:
  assumes cl: "climbs cl" and b: "col sib = BLACK" and i: "invc sib"
    and c: "closeR sib = Nd (Nd fl f RED fd fr) sa k sd near"
    and P: "pref_ok (vars s) (cpar None (comp (InR sib p pc pd c) cl)) t parentP"
    and C: "cref_ok (vars s) t childP"
    and T: "tree_of s (plug (comp (InR sib p pc pd c) cl) t)"
  shows "\<exists>s'. solveDB s parentP childP (cside (comp (InR sib p pc pd c) cl)) = Some s'
     \<and> tree_of s' (plug c (Nd (Nd fl f BLACK fd fr) sa pc sd (Nd near p k pd (plug (redsib cl) t))))"
proof -
  from closeR_BLACK [OF b c i] obtain sl s0 sd0 sr where sib: "sib = Nd sl s0 BLACK sd0 sr"
    and nb: "\<not> (col sl = BLACK \<and> col sr = BLACK)" and n: "col near = BLACK"
    using b by (cases sib) auto
  from nb have bs: "bsR (plug (redsib cl) t) p pc pd sib
      = (False, farR (plug (redsib cl) t) p pc pd (closeR sib))"
    unfolding bsR_def sib by (auto simp del: closeR.simps)
  have "solveA (InR sib p pc pd c) (plug (redsib cl) t)
      = Some (plug c (farR (plug (redsib cl) t) p pc pd (closeR sib)))"
    unfolding bs solveA.simps sib [symmetric] by (simp add: sib bs)
  then have "solveA (InR sib p pc pd c) (plug (redsib cl) t)
      = Some (plug c (Nd (Nd fl f BLACK fd fr) sa pc sd (Nd near p k pd (plug (redsib cl) t))))"
    unfolding c using n by simp
  then have A: "solveA (comp (InR sib p pc pd c) cl) t
      = Some (plug c (Nd (Nd fl f BLACK fd fr) sa pc sd (Nd near p k pd (plug (redsib cl) t))))"
    by (simp add: solveA_climb [OF cl])
  from solveDB_spec [OF A T P C] show ?thesis by blast
qed

text \<open>Three stores with a deficient position, as \<open>balanceTree\<close> leaves them after it has
  disconnected a black leaf, with the locals \<open>parent\<close> and \<open>child\<close> of \<open>deleteFromRBTree\<close>.
  In \<open>st_climb\<close> the right child of node 2 is missing; in \<open>st_both\<close> the left child of the
  root, whose sibling has two red children; in \<open>st_far_R\<close> the right child of the root.\<close>

definition st_climb :: "int state" where
  "st_climb = newRBTree\<lparr>nodes := (\<lambda>a. None)(
      1 \<mapsto> \<lparr>parent = None, left = Some 2, right = Some 4, data = Some 50, color = BLACK\<rparr>,
      2 \<mapsto> \<lparr>parent = Some 1, left = Some 3, right = None, data = Some 20, color = BLACK\<rparr>,
      3 \<mapsto> leaf (Some 2) BLACK 10,
      4 \<mapsto> \<lparr>parent = Some 1, left = Some 6, right = Some 5, data = Some 70, color = BLACK\<rparr>,
      5 \<mapsto> \<lparr>parent = Some 4, left = Some 7, right = Some 8, data = Some 90, color = RED\<rparr>,
      6 \<mapsto> leaf (Some 4) BLACK 60,
      7 \<mapsto> leaf (Some 5) BLACK 80,
      8 \<mapsto> leaf (Some 5) BLACK 95), root := Some 1, size_f := 9,
      vars := (\<lambda>v. None)(V_parent := Some 2)\<rparr>"

definition st_both :: "int state" where
  "st_both = newRBTree\<lparr>nodes := (\<lambda>a. None)(
      1 \<mapsto> \<lparr>parent = None, left = None, right = Some 2, data = Some 10, color = BLACK\<rparr>,
      2 \<mapsto> \<lparr>parent = Some 1, left = Some 4, right = Some 3, data = Some 20, color = BLACK\<rparr>,
      3 \<mapsto> leaf (Some 2) RED 30,
      4 \<mapsto> leaf (Some 2) RED 15), root := Some 1, size_f := 5,
      vars := (\<lambda>v. None)(V_parent := Some 1)\<rparr>"

definition st_far_R :: "int state" where
  "st_far_R = newRBTree\<lparr>nodes := (\<lambda>a. None)(
      1 \<mapsto> \<lparr>parent = None, left = Some 2, right = None, data = Some 30, color = BLACK\<rparr>,
      2 \<mapsto> \<lparr>parent = Some 1, left = Some 3, right = None, data = Some 20, color = BLACK\<rparr>,
      3 \<mapsto> leaf (Some 2) RED 10), root := Some 1, size_f := 4,
      vars := (\<lambda>v. None)(V_parent := Some 1)\<rparr>"

text \<open>
  C7. The far-nephew step of the double-black resolution, for the sibling it works on: the
  sibling as \<open>blackSiblingDB\<close> recomputes it after the close-nephew step (\<open>closeL\<close>, \<open>closeR\<close>:
  the sibling itself when its close nephew is not red, the close nephew rotated above it
  otherwise). \<open>solveDB\<close> is called for a deficient subtree \<open>t\<close> through any pointers
  \<open>parentP\<close> and \<open>childP\<close> that \<open>balanceTree\<close> or \<open>solveDB\<close> itself passes (\<open>pref_ok\<close>,
  \<open>cref_ok\<close>); the deficiency may first climb through the frames \<open>cl\<close>, up to a parent \<open>p\<close> of
  colour \<open>pc\<close> whose other child \<open>sib\<close> is black, in a tree where no red node of \<open>sib\<close> has a
  red child. When the recomputed sibling \<open>sa\<close>, of colour \<open>k\<close>, has a red far nephew \<open>f\<close>,
  \<open>solveDB\<close> returns, and in the tree it leaves \<open>sa\<close> stands above \<open>p\<close>, \<open>sa\<close> has the colour
  \<open>pc\<close> and \<open>p\<close> the colour \<open>k\<close>, which is black, and \<open>f\<close> is black; the rest of the tree is what
  it was, but for the siblings painted red along the climb. This for a deficient left child
  and for a deficient right child. The deficiency is absorbed: when the sibling's subtree
  was one black node taller than the deficient one, the new subtree is balanced and as tall
  as the sibling's side made the old one.
\<close>

theorem solveDB_far_nephew:
  assumes "climbs cl" and "col sib = BLACK" and "invc sib"
    and "pref_ok (vars s) (cpar None (comp C cl)) t parentP" and "cref_ok (vars s) t childP"
    and "tree_of s (plug (comp C cl) t)"
  shows "(C = InL c p pc pd sib \<and> closeL sib = Nd near sa k sd (Nd fl f RED fd fr) \<longrightarrow>
        k = BLACK
      \<and> (\<exists>s'. solveDB s parentP childP (cside (comp C cl)) = Some s'
            \<and> tree_of s' (plug c (Nd (Nd (plug (redsib cl) t) p k pd near) sa pc sd
                                   (Nd fl f BLACK fd fr))))
      \<and> (invh (plug (redsib cl) t) \<and> invh (Nd near sa k sd (Nd fl f RED fd fr))
          \<and> bh (Nd near sa k sd (Nd fl f RED fd fr)) = bh (plug (redsib cl) t) + 1 \<longrightarrow>
            invh (Nd (Nd (plug (redsib cl) t) p k pd near) sa pc sd (Nd fl f BLACK fd fr))
          \<and> bh (Nd (Nd (plug (redsib cl) t) p k pd near) sa pc sd (Nd fl f BLACK fd fr))
              = bh (Nd near sa k sd (Nd fl f RED fd fr)) + (if pc = BLACK then 1 else 0)))
    \<and> (C = InR sib p pc pd c \<and> closeR sib = Nd (Nd fl f RED fd fr) sa k sd near \<longrightarrow>
        k = BLACK
      \<and> (\<exists>s'. solveDB s parentP childP (cside (comp C cl)) = Some s'
            \<and> tree_of s' (plug c (Nd (Nd fl f BLACK fd fr) sa pc sd
                                   (Nd near p k pd (plug (redsib cl) t)))))
      \<and> (invh (plug (redsib cl) t) \<and> invh (Nd (Nd fl f RED fd fr) sa k sd near)
          \<and> bh (Nd (Nd fl f RED fd fr) sa k sd near) = bh (plug (redsib cl) t) + 1 \<longrightarrow>
            invh (Nd (Nd fl f BLACK fd fr) sa pc sd (Nd near p k pd (plug (redsib cl) t)))
          \<and> bh (Nd (Nd fl f BLACK fd fr) sa pc sd (Nd near p k pd (plug (redsib cl) t)))
              = bh (Nd (Nd fl f RED fd fr) sa k sd near) + (if pc = BLACK then 1 else 0)))"
proof (intro conjI impI)
  assume a: "C = InL c p pc pd sib \<and> closeL sib = Nd near sa k sd (Nd fl f RED fd fr)"
  then have cl: "closeL sib = Nd near sa k sd (Nd fl f RED fd fr)" and C: "C = InL c p pc pd sib"
    by simp_all
  from closeL_BLACK [OF assms(2) cl] show k: "k = BLACK" by simp
  from far_L [OF assms(1,2) cl assms(4) [unfolded C] assms(5) assms(6) [unfolded C]]
  show "\<exists>s'. solveDB s parentP childP (cside (comp C cl)) = Some s'
      \<and> tree_of s' (plug c (Nd (Nd (plug (redsib cl) t) p k pd near) sa pc sd (Nd fl f BLACK fd fr)))"
    by (simp add: C)
  assume "invh (plug (redsib cl) t) \<and> invh (Nd near sa k sd (Nd fl f RED fd fr))
      \<and> bh (Nd near sa k sd (Nd fl f RED fd fr)) = bh (plug (redsib cl) t) + 1"
  with k show "invh (Nd (Nd (plug (redsib cl) t) p k pd near) sa pc sd (Nd fl f BLACK fd fr))"
    and "bh (Nd (Nd (plug (redsib cl) t) p k pd near) sa pc sd (Nd fl f BLACK fd fr))
        = bh (Nd near sa k sd (Nd fl f RED fd fr)) + (if pc = BLACK then 1 else 0)"
    by simp_all
next
  assume a: "C = InR sib p pc pd c \<and> closeR sib = Nd (Nd fl f RED fd fr) sa k sd near"
  then have cl: "closeR sib = Nd (Nd fl f RED fd fr) sa k sd near" and C: "C = InR sib p pc pd c"
    by simp_all
  from closeR_BLACK [OF assms(2) cl assms(3)] show k: "k = BLACK" by simp
  from far_R [OF assms(1,2,3) cl assms(4) [unfolded C] assms(5) assms(6) [unfolded C]]
  show "\<exists>s'. solveDB s parentP childP (cside (comp C cl)) = Some s'
      \<and> tree_of s' (plug c (Nd (Nd fl f BLACK fd fr) sa pc sd (Nd near p k pd (plug (redsib cl) t))))"
    by (simp add: C)
  assume "invh (plug (redsib cl) t) \<and> invh (Nd (Nd fl f RED fd fr) sa k sd near)
      \<and> bh (Nd (Nd fl f RED fd fr) sa k sd near) = bh (plug (redsib cl) t) + 1"
  with k show "invh (Nd (Nd fl f BLACK fd fr) sa pc sd (Nd near p k pd (plug (redsib cl) t)))"
    and "bh (Nd (Nd fl f BLACK fd fr) sa pc sd (Nd near p k pd (plug (redsib cl) t)))
        = bh (Nd (Nd fl f RED fd fr) sa k sd near) + (if pc = BLACK then 1 else 0)"
    by simp_all
qed

theorem solveDB_far_nephew_witness:
  "climbs (InR (Nd Lf 3 BLACK (10::int) Lf) 2 BLACK 20 Top)
   \<and> tree_of st_climb (Nd (Nd (Nd Lf 3 BLACK 10 Lf) 2 BLACK 20 Lf) 1 BLACK 50
        (Nd (Nd Lf 6 BLACK 60 Lf) 4 BLACK 70 (Nd (Nd Lf 7 BLACK 80 Lf) 5 RED 90 (Nd Lf 8 BLACK 95 Lf))))
   \<and> pref_ok (vars st_climb) (Some 2) (Lf :: int tr) (Var V_parent)
   \<and> cref_ok (vars st_climb) (Lf :: int tr) (Var V_child)
   \<and> (\<exists>s'. solveDB st_climb (Var V_parent) (Var V_child) RIGHT = Some s'
        \<and> tree_of s' (Nd (Nd (Nd (Nd Lf 3 RED 10 Lf) 2 BLACK 20 Lf) 1 BLACK 50 (Nd Lf 6 BLACK 60 Lf))
             4 BLACK 70 (Nd (Nd Lf 7 BLACK 80 Lf) 5 BLACK 90 (Nd Lf 8 BLACK 95 Lf))))
   \<and> invh (Nd (Nd (Nd (Nd Lf 3 RED (10::int) Lf) 2 BLACK 20 Lf) 1 BLACK 50 (Nd Lf 6 BLACK 60 Lf))
             4 BLACK 70 (Nd (Nd Lf 7 BLACK 80 Lf) 5 BLACK 90 (Nd Lf 8 BLACK 95 Lf)))
   \<and> tree_of st_both (Nd Lf 1 BLACK 10 (Nd (Nd Lf 4 RED 15 Lf) 2 BLACK 20 (Nd Lf 3 RED 30 Lf)))
   \<and> closeL (Nd (Nd Lf 4 RED (15::int) Lf) 2 BLACK 20 (Nd Lf 3 RED 30 Lf))
       = Nd Lf 4 BLACK 15 (Nd Lf 2 RED 20 (Nd Lf 3 RED 30 Lf))
   \<and> invc (Nd (Nd Lf 4 RED (15::int) Lf) 2 BLACK 20 (Nd Lf 3 RED 30 Lf))
   \<and> pref_ok (vars st_both) (Some 1) (Lf :: int tr) (Var V_parent)
   \<and> cref_ok (vars st_both) (Lf :: int tr) (Var V_child)
   \<and> (\<exists>s'. solveDB st_both (Var V_parent) (Var V_child) LEFT = Some s'
        \<and> tree_of s' (Nd (Nd Lf 1 BLACK 10 Lf) 4 BLACK 15 (Nd Lf 2 BLACK 20 (Nd Lf 3 RED 30 Lf))))
   \<and> tree_of st_far_R (Nd (Nd (Nd Lf 3 RED 10 Lf) 2 BLACK 20 Lf) 1 BLACK 30 Lf)
   \<and> pref_ok (vars st_far_R) (Some 1) (Lf :: int tr) (Var V_parent)
   \<and> cref_ok (vars st_far_R) (Lf :: int tr) (Var V_child)
   \<and> (\<exists>s'. solveDB st_far_R (Var V_parent) (Var V_child) RIGHT = Some s'
        \<and> tree_of s' (Nd (Nd Lf 3 BLACK 10 Lf) 2 BLACK 20 (Nd Lf 1 BLACK 30 Lf)))"
proof -
  have A: "tree_of st_climb (Nd (Nd (Nd Lf 3 BLACK 10 Lf) 2 BLACK 20 Lf) 1 BLACK 50
        (Nd (Nd Lf 6 BLACK 60 Lf) 4 BLACK 70 (Nd (Nd Lf 7 BLACK 80 Lf) 5 RED 90 (Nd Lf 8 BLACK 95 Lf))))"
    by (simp add: tree_of_def st_climb_def leaf_def newRBTree_def)
  have B: "tree_of st_both (Nd Lf 1 BLACK 10 (Nd (Nd Lf 4 RED 15 Lf) 2 BLACK 20 (Nd Lf 3 RED 30 Lf)))"
    by (simp add: tree_of_def st_both_def leaf_def newRBTree_def)
  have R: "tree_of st_far_R (Nd (Nd (Nd Lf 3 RED 10 Lf) 2 BLACK 20 Lf) 1 BLACK 30 Lf)"
    by (simp add: tree_of_def st_far_R_def leaf_def newRBTree_def)
  have vA: "pref_ok (vars st_climb) (Some 2) (Lf :: int tr) (Var V_parent)"
    "cref_ok (vars st_climb) (Lf :: int tr) (Var V_child)"
    by (simp_all add: pref_ok_def cref_ok_def st_climb_def newRBTree_def)
  have vB: "pref_ok (vars st_both) (Some 1) (Lf :: int tr) (Var V_parent)"
    "cref_ok (vars st_both) (Lf :: int tr) (Var V_child)"
    by (simp_all add: pref_ok_def cref_ok_def st_both_def newRBTree_def)
  have vR: "pref_ok (vars st_far_R) (Some 1) (Lf :: int tr) (Var V_parent)"
    "cref_ok (vars st_far_R) (Lf :: int tr) (Var V_child)"
    by (simp_all add: pref_ok_def cref_ok_def st_far_R_def newRBTree_def)
  have cA: "climbs (InR (Nd Lf 3 BLACK (10::int) Lf) 2 BLACK 20 Top)" by simp
  note a = solveDB_far_nephew [where cl = "InR (Nd Lf 3 BLACK 10 Lf) 2 BLACK 20 Top"
      and sib = "Nd (Nd Lf 6 BLACK 60 Lf) 4 BLACK 70 (Nd (Nd Lf 7 BLACK 80 Lf) 5 RED 90 (Nd Lf 8 BLACK 95 Lf))"
      and C = "InL Top 1 BLACK 50
         (Nd (Nd Lf 6 BLACK 60 Lf) 4 BLACK 70 (Nd (Nd Lf 7 BLACK 80 Lf) 5 RED 90 (Nd Lf 8 BLACK 95 Lf)))"
      and s = st_climb and t = Lf and parentP = "Var V_parent" and childP = "Var V_child"
      and c = Top and p = 1 and pc = BLACK and pd = 50 and near = "Nd Lf 6 BLACK 60 Lf"
      and sa = 4 and k = BLACK and sd = 70 and fl = "Nd Lf 7 BLACK 80 Lf" and f = 5 and fd = 90
      and fr = "Nd Lf 8 BLACK 95 Lf"]
  note b = solveDB_far_nephew [where cl = Top
      and sib = "Nd (Nd Lf 4 RED 15 Lf) 2 BLACK 20 (Nd Lf 3 RED 30 Lf)"
      and C = "InL Top 1 BLACK 10 (Nd (Nd Lf 4 RED 15 Lf) 2 BLACK 20 (Nd Lf 3 RED 30 Lf))"
      and s = st_both and t = Lf and parentP = "Var V_parent" and childP = "Var V_child"
      and c = Top and p = 1 and pc = BLACK and pd = 10 and near = Lf
      and sa = 4 and k = BLACK and sd = 15 and fl = Lf and f = 2 and fd = 20
      and fr = "Nd Lf 3 RED 30 Lf"]
  note r = solveDB_far_nephew [where cl = Top
      and sib = "Nd (Nd Lf 3 RED 10 Lf) 2 BLACK 20 Lf"
      and C = "InR (Nd (Nd Lf 3 RED 10 Lf) 2 BLACK 20 Lf) 1 BLACK 30 Top"
      and s = st_far_R and t = Lf and parentP = "Var V_parent" and childP = "Var V_child"
      and c = Top and p = 1 and pc = BLACK and pd = 30 and near = Lf
      and sa = 2 and k = BLACK and sd = 20 and fl = Lf and f = 3 and fd = 10 and fr = Lf]
  from a vA A have a': "\<exists>s'. solveDB st_climb (Var V_parent) (Var V_child) RIGHT = Some s'
        \<and> tree_of s' (Nd (Nd (Nd (Nd Lf 3 RED 10 Lf) 2 BLACK 20 Lf) 1 BLACK 50 (Nd Lf 6 BLACK 60 Lf))
             4 BLACK 70 (Nd (Nd Lf 7 BLACK 80 Lf) 5 BLACK 90 (Nd Lf 8 BLACK 95 Lf)))"
    by simp
  from b vB B have b': "\<exists>s'. solveDB st_both (Var V_parent) (Var V_child) LEFT = Some s'
        \<and> tree_of s' (Nd (Nd Lf 1 BLACK 10 Lf) 4 BLACK 15 (Nd Lf 2 BLACK 20 (Nd Lf 3 RED 30 Lf)))"
    by simp
  from r vR R have r': "\<exists>s'. solveDB st_far_R (Var V_parent) (Var V_child) RIGHT = Some s'
        \<and> tree_of s' (Nd (Nd Lf 3 BLACK 10 Lf) 2 BLACK 20 (Nd Lf 1 BLACK 30 Lf))"
    by simp
  show ?thesis
    by (intro conjI cA A vA a' B vB b' R vR r') simp_all
qed

end
